theory Spec2Isabelle
  imports Main "HOL-Library.Word"
begin

unbundle bit_operations_syntax

section \<open>Data model of the I2C hardware controller firmware\<close>

text \<open>
  The firmware (\<^verbatim>\<open>I2CHWC.ino\<close>) runs on a 32-bit microcontroller: \<^verbatim>\<open>int\<close> is a
  32-bit two's complement integer, \<^verbatim>\<open>uint8_t\<close> and \<^verbatim>\<open>uint32_t\<close> are 8 and 32 bit
  unsigned integers. All of them are words here, so every addition, shift and
  narrowing conversion wraps as it does on the device.
\<close>

type_synonym u8 = "8 word"
type_synonym u32 = "32 word"
type_synonym int32 = "32 word"

text \<open>The compile-time configuration of the sketch.\<close>

definition POTS :: nat where "POTS = 64"
definition SWITCHES :: nat where "SWITCHES = 40"
definition ENCODERS :: nat where "ENCODERS = 40"
definition ADC_BITS :: nat where "ADC_BITS = 10"
definition ROT_THRESHOLD :: u32 where "ROT_THRESHOLD = 10"
definition ROT_FAST_SCALE :: int32 where "ROT_FAST_SCALE = 10"
definition DEBOUNCE_TIME :: u32 where "DEBOUNCE_TIME = 50"

definition MAX_POTS :: nat where "MAX_POTS = 64"
definition MAX_SWITCHES :: nat where "MAX_SWITCHES = 40"
definition MAX_ENCODERS :: nat where "MAX_ENCODERS = 40"

definition anValid :: "u8 list" where
  "anValid = [0,1,1,0,1,0,0,1,1,0,0,1,0,1,1,0]"

definition ADC_MASK_BITS :: nat where "ADC_MASK_BITS = 12 - ADC_BITS"
definition ADC_FILTER_SAMPLES :: int32 where "ADC_FILTER_SAMPLES = drop_bit ADC_MASK_BITS 32"
definition POT_START :: nat where "POT_START = 0"
definition SWITCH_START :: nat where "SWITCH_START = MAX_POTS"
definition ENCODER_START :: nat where "ENCODER_START = MAX_POTS + MAX_SWITCHES"
definition MAX_CONTROLLERS :: nat where "MAX_CONTROLLERS = ENCODER_START + MAX_ENCODERS"

text \<open>The sizes of the pin tables (\<^verbatim>\<open>sizeof\<close> of the arrays of \<^verbatim>\<open>uint8_t\<close>).\<close>

definition sizeof_MatrixOutputPins :: nat where "sizeof_MatrixOutputPins = 10"
definition sizeof_SwitchInputPins :: nat where "sizeof_SwitchInputPins = 4"
definition sizeof_EncoderInputPins :: nat where "sizeof_EncoderInputPins = 8"

text \<open>The enumeration \<^verbatim>\<open>CONTROLLER_TYPE\<close>, stored in a \<^verbatim>\<open>uint8_t\<close> field.\<close>

definition CONTROLLER_TYPE_POT :: u8 where "CONTROLLER_TYPE_POT = 0"
definition CONTROLLER_TYPE_SWITCH :: u8 where "CONTROLLER_TYPE_SWITCH = 1"
definition CONTROLLER_TYPE_ENCODER :: u8 where "CONTROLLER_TYPE_ENCODER = 2"

text \<open>\<^verbatim>\<open>struct Controller\<close>, field by field.\<close>

record Controller =
  dirty :: bool
  "value" :: int32
  count :: u8
  code :: u8
  type :: u8
  time :: u32

text \<open>
  \<^verbatim>\<open>Controller::getValue\<close>: the value with the processing of its type, and the
  record as the call leaves it. The shift of the signed \<^verbatim>\<open>int\<close> is arithmetic.
\<close>

definition getValue :: "Controller \<Rightarrow> int32 \<times> Controller" where
  "getValue c =
     (if type c = CONTROLLER_TYPE_POT then (signed_drop_bit ADC_MASK_BITS (value c), c)
      else if type c = CONTROLLER_TYPE_ENCODER then (value c, c\<lparr>value := 0\<rparr>)
      else if type c = CONTROLLER_TYPE_SWITCH then (value c, c)
      else (value c, c))"

text \<open>
  The global variables, and the level of the interrupt pin (\<open>True\<close> is \<^verbatim>\<open>HIGH\<close>),
  the only output pin whose level the bus master observes.
\<close>

record state =
  g_nLastRead :: u8
  g_nI2Cregister :: int32
  g_anControllers :: "Controller list"
  InterruptPin :: bool

definition LOW :: bool where "LOW = False"
definition HIGH :: bool where "HIGH = True"

text \<open>
  The array \<^verbatim>\<open>g_anControllers\<close> has \<^verbatim>\<open>MAX_CONTROLLERS\<close> elements. Reading an
  element past its end is undefined behaviour in C++; the model makes it a fault.
\<close>

datatype fault = OutOfBounds

definition controller_at :: "Controller list \<Rightarrow> nat \<Rightarrow> fault + Controller" where
  "controller_at cs i = (if i < MAX_CONTROLLERS then Inr (cs ! i) else Inl OutOfBounds)"

section \<open>The change scanner\<close>

text \<open>
  One \<^verbatim>\<open>for\<close> loop of \<^verbatim>\<open>getDirty\<close> over the indices it is given, in order: the
  first index whose controller is dirty, \<open>None\<close> when the loop runs to its end.
\<close>

fun dirty_loop :: "Controller list \<Rightarrow> nat list \<Rightarrow> fault + nat option" where
  "dirty_loop cs [] = Inr None"
| "dirty_loop cs (i # is) =
     (case controller_at cs i of
        Inl f \<Rightarrow> Inl f
      | Inr c \<Rightarrow> if dirty c then Inr (Some i) else dirty_loop cs is)"

text \<open>
  \<^verbatim>\<open>getDirty\<close>: the returned byte and the state after it (only the interrupt pin
  is written). The loop counters are \<^verbatim>\<open>uint8_t\<close>; they stay below 256, so the
  ranges are those of the natural numbers.
\<close>

definition getDirty :: "state \<Rightarrow> fault + (u8 \<times> state)" where
  "getDirty st =
     (case dirty_loop (g_anControllers st) [unat (g_nLastRead st) ..< MAX_CONTROLLERS] of
        Inl f \<Rightarrow> Inl f
      | Inr (Some i) \<Rightarrow> Inr (of_nat (i + 1), st\<lparr>InterruptPin := LOW\<rparr>)
      | Inr None \<Rightarrow>
          (case dirty_loop (g_anControllers st) [0 ..< unat (g_nLastRead st)] of
             Inl f \<Rightarrow> Inl f
           | Inr (Some i) \<Rightarrow> Inr (of_nat (i + 1), st\<lparr>InterruptPin := LOW\<rparr>)
           | Inr None \<Rightarrow> Inr (0, st\<lparr>InterruptPin := HIGH\<rparr>)))"

section \<open>The bus protocol handler\<close>

text \<open>
  \<^verbatim>\<open>sendValue\<close>: the bytes written to the bus and the state after. The guard
  \<^verbatim>\<open>controller == 0 || controller-- > MAX_CONTROLLERS\<close> compares the value before
  the decrement; past it \<^verbatim>\<open>controller\<close> is the zero-based index.
\<close>

definition sendValue :: "u8 \<Rightarrow> state \<Rightarrow> fault + (u8 list \<times> state)" where
  "sendValue controller st =
     (if controller = 0 \<or> MAX_CONTROLLERS < unat controller then Inr ([], st)
      else
        let idx = unat (controller - 1);
            (nValue, c) = getValue (g_anControllers st ! idx);
            anValue = [ucast (nValue AND 0xFF), ucast (signed_drop_bit 8 nValue)];
            st1 = st\<lparr>g_anControllers := (g_anControllers st)[idx := c\<lparr>dirty := False\<rparr>]\<rparr>
        in case getDirty st1 of
             Inl f \<Rightarrow> Inl f
           | Inr (d, st2) \<Rightarrow> Inr (anValue, st2))"

text \<open>\<^verbatim>\<open>onI2Crequest\<close>: the bytes of the response and the state after.\<close>

definition onI2Crequest :: "state \<Rightarrow> fault + (u8 list \<times> state)" where
  "onI2Crequest st =
     (if g_nI2Cregister st \<noteq> 0 then
        (case sendValue (ucast (g_nI2Cregister st)) st of
           Inl f \<Rightarrow> Inl f
         | Inr (bytes, st1) \<Rightarrow> Inr (bytes, st1\<lparr>g_nI2Cregister := 0\<rparr>))
      else
        (case getDirty st of
           Inl f \<Rightarrow> Inl f
         | Inr (d, st1) \<Rightarrow> Inr ([d], st1)))"

text \<open>
  \<^verbatim>\<open>onI2Creceive\<close>. \<open>rd\<close> is the \<^verbatim>\<open>int\<close> that the first \<^verbatim>\<open>Wire.read()\<close> returns:
  the first byte of the message, or -1 when the message is empty. The bytes
  drained afterwards are not stored anywhere.
\<close>

definition onI2Creceive :: "int32 \<Rightarrow> int32 \<Rightarrow> state \<Rightarrow> state" where
  "onI2Creceive nBytes rd st =
     (if nBytes <s 0 then st
      else st\<lparr>g_nI2Cregister := rd, g_nLastRead := ucast rd\<rparr>)"

section \<open>The signal filters\<close>

text \<open>
  What the hardware returns during one pass of \<^verbatim>\<open>loop\<close>: the sample of
  \<^verbatim>\<open>analogRead\<close> at multiplexer position \<open>nMux\<close> and input \<open>nAdc\<close>, the level of
  \<^verbatim>\<open>digitalRead\<close> on input \<open>nX\<close> of the switch or encoder pins while matrix row
  \<open>nY\<close> is driven high, and the value of each call of \<^verbatim>\<open>millis\<close> (one call per
  call site and controller; the clock may advance between them).
\<close>

record inputs =
  analogRead :: "nat \<Rightarrow> nat \<Rightarrow> int32"
  switchRead :: "nat \<Rightarrow> nat \<Rightarrow> int32"
  encoderRead :: "nat \<Rightarrow> nat \<Rightarrow> int32"
  millis_adc :: "nat \<Rightarrow> u32"
  millis_switch_test :: "nat \<Rightarrow> u32"
  millis_switch_stamp :: "nat \<Rightarrow> u32"
  millis_encoder :: "nat \<Rightarrow> u32"

text \<open>\<^verbatim>\<open>abs\<close> on an \<^verbatim>\<open>int\<close>.\<close>

definition abs_int :: "int32 \<Rightarrow> int32" where
  "abs_int x = (if 0 <s x then x else - x)"

text \<open>
  The body of the inner loop of \<^verbatim>\<open>readAdc\<close> for one potentiometer: the sample
  \<open>nAnaRead\<close>, and \<open>now\<close> the value of \<^verbatim>\<open>millis()\<close> should it be called.
  \<^verbatim>\<open>++count = 0\<close> leaves 0 in \<^verbatim>\<open>count\<close>.
\<close>

definition adc_sample :: "int32 \<Rightarrow> u32 \<Rightarrow> Controller \<Rightarrow> Controller" where
  "adc_sample nAnaRead now c =
     (if abs_int (nAnaRead - value c) <s push_bit ADC_MASK_BITS 1 then c\<lparr>count := 0\<rparr>
      else if ucast (count c + 1) <s ADC_FILTER_SAMPLES then c\<lparr>count := count c + 1\<rparr>
      else c\<lparr>count := 0, value := nAnaRead, dirty := True, time := now\<rparr>)"

definition readAdc_cell :: "inputs \<Rightarrow> nat \<Rightarrow> nat \<Rightarrow> Controller list \<Rightarrow> Controller list" where
  "readAdc_cell inp nMux nAdc cs =
     (let nPot = nMux + nAdc * 8 in
      if nPot < POTS
      then cs[POT_START + nPot :=
                adc_sample (analogRead inp nMux nAdc) (millis_adc inp nPot) (cs ! (POT_START + nPot))]
      else cs)"

definition readAdc :: "inputs \<Rightarrow> Controller list \<Rightarrow> Controller list" where
  "readAdc inp cs = fold (\<lambda>nMux. fold (\<lambda>nAdc. readAdc_cell inp nMux nAdc) [0..<8]) [0..<8] cs"

text \<open>
  The body of the inner loop of \<^verbatim>\<open>readSwitch\<close> for one switch: the level read,
  the clock of the test and the clock of the stamp. Both sides of the test are
  \<^verbatim>\<open>uint32_t\<close>, so the sum wraps.
\<close>

definition switch_sample :: "int32 \<Rightarrow> u32 \<Rightarrow> u32 \<Rightarrow> Controller \<Rightarrow> Controller" where
  "switch_sample nValue tTest tStamp c =
     (if nValue \<noteq> value c \<and> time c + DEBOUNCE_TIME < tTest
      then c\<lparr>value := nValue, dirty := True, time := tStamp\<rparr>
      else c)"

text \<open>
  The two nested loops of \<^verbatim>\<open>readSwitch\<close>, over the cells \<open>(nY, nX)\<close> of the matrix
  in the order of the loops; the \<^verbatim>\<open>return\<close> in the \<^verbatim>\<open>else\<close> branch ends both.
\<close>

fun readSwitch_cells :: "inputs \<Rightarrow> (nat \<times> nat) list \<Rightarrow> Controller list \<Rightarrow> Controller list" where
  "readSwitch_cells inp [] cs = cs"
| "readSwitch_cells inp ((nY, nX) # cells) cs =
     (let nSwitch = nY * sizeof_SwitchInputPins + nX in
      if nSwitch < SWITCHES
      then readSwitch_cells inp cells
             (cs[SWITCH_START + nSwitch :=
                   switch_sample (switchRead inp nY nX) (millis_switch_test inp nSwitch)
                     (millis_switch_stamp inp nSwitch) (cs ! (SWITCH_START + nSwitch))])
      else cs)"

definition readSwitch :: "inputs \<Rightarrow> Controller list \<Rightarrow> Controller list" where
  "readSwitch inp cs =
     readSwitch_cells inp (List.product [0..<sizeof_MatrixOutputPins] [0..<sizeof_SwitchInputPins]) cs"

text \<open>
  The new 4-bit code of an encoder: the old code shifted left by two, the data
  level in bit 1 and the clock level in bit 0, masked to four bits.
\<close>

definition encoder_code :: "int32 \<Rightarrow> int32 \<Rightarrow> u8 \<Rightarrow> u8" where
  "encoder_code nClk nData old =
     (let c1 = push_bit 2 old;
          c2 = (if nData \<noteq> 0 then c1 OR 0x02 else c1);
          c3 = (if nClk \<noteq> 0 then c2 OR 0x01 else c2)
      in c3 AND 0x0f)"

text \<open>
  The body of the inner loop of \<^verbatim>\<open>readEncoder\<close> for one encoder. \<^verbatim>\<open>nDir\<close> is
  the \<^verbatim>\<open>int8_t\<close> declared before the loops; the body receives it as the
  previous iterations left it and returns it with the record.
\<close>

definition encoder_sample ::
  "int32 \<Rightarrow> int32 \<Rightarrow> u32 \<Rightarrow> u8 \<times> Controller \<Rightarrow> u8 \<times> Controller" where
  "encoder_sample nClk nData lNow p =
     (let nDir = fst p; c = snd p in
      if nClk = 0 \<and> code c = 0 then (nDir, c)
      else
        let c1 = c\<lparr>code := encoder_code nClk nData (code c)\<rparr>
        in if anValid ! unat (code c1) \<noteq> 0 then
             let c2 = c1\<lparr>count := push_bit 4 (count c1) OR code c1\<rparr>;
                 nDir1 = (if count c2 = 0xd4 then - 1
                          else if count c2 = 0x17 then 1 else nDir)
             in if nDir1 \<noteq> 0 then
                  let c3 = (if time c2 + ROT_THRESHOLD \<le> lNow
                            then c2\<lparr>value := value c2 + scast nDir1\<rparr>
                            else c2\<lparr>value := value c2 + scast nDir1 * ROT_FAST_SCALE\<rparr>)
                  in (nDir1, c3\<lparr>time := lNow, code := 0, dirty := True\<rparr>)
                else (nDir1, c2)
           else (nDir, c1))"

text \<open>
  The two nested loops of \<^verbatim>\<open>readEncoder\<close>, over the cells \<open>(nY, nX)\<close> with
  \<open>nX\<close> even, carrying \<^verbatim>\<open>nDir\<close> from one cell to the next.
\<close>

fun readEncoder_cells ::
  "inputs \<Rightarrow> (nat \<times> nat) list \<Rightarrow> u8 \<times> Controller list \<Rightarrow> u8 \<times> Controller list" where
  "readEncoder_cells inp [] s = s"
| "readEncoder_cells inp ((nY, nX) # cells) s =
     (let nEncoder = (nY * sizeof_EncoderInputPins + nX) div 2 in
      if nEncoder < ENCODERS
      then
        let r = encoder_sample (encoderRead inp nY nX) (encoderRead inp nY (nX + 1))
                  (millis_encoder inp nEncoder) (fst s, snd s ! (ENCODER_START + nEncoder))
        in readEncoder_cells inp cells (fst r, (snd s)[ENCODER_START + nEncoder := snd r])
      else s)"

definition readEncoder :: "inputs \<Rightarrow> Controller list \<Rightarrow> Controller list" where
  "readEncoder inp cs =
     snd (readEncoder_cells inp
            (List.product [0..<sizeof_MatrixOutputPins] [0, 2, 4, 6]) (0, cs))"

section \<open>The acquisition loop and the events of the device\<close>

text \<open>\<^verbatim>\<open>loop\<close>: one pass over the three classes of input, then the change scan.\<close>

definition loop :: "inputs \<Rightarrow> state \<Rightarrow> fault + state" where
  "loop inp st =
     (let cs1 = readAdc inp (g_anControllers st);
          cs2 = readSwitch inp cs1;
          cs3 = readEncoder inp cs2
      in case getDirty (st\<lparr>g_anControllers := cs3\<rparr>) of
           Inl f \<Rightarrow> Inl f
         | Inr (d, st1) \<Rightarrow> Inr st1)"

text \<open>
  The state that \<^verbatim>\<open>setup\<close> leaves: the globals as initialised, the records typed
  by range. The level of the interrupt pin is not set by \<^verbatim>\<open>setup\<close>; it is given.
\<close>

definition setup_state :: "bool \<Rightarrow> state" where
  "setup_state pin =
     \<lparr>g_nLastRead = 0, g_nI2Cregister = 0,
      g_anControllers =
        map (\<lambda>i. \<lparr>dirty = False, value = 0, count = 0, code = 0,
                  type = (if i < SWITCH_START then CONTROLLER_TYPE_POT
                          else if i < ENCODER_START then CONTROLLER_TYPE_SWITCH
                          else CONTROLLER_TYPE_ENCODER),
                  time = 0\<rparr>) [0..<MAX_CONTROLLERS],
      InterruptPin = pin\<rparr>"

text \<open>
  What happens to the device: a message from the master (\<^verbatim>\<open>onI2Creceive\<close>), a
  request of the master (\<^verbatim>\<open>onI2Crequest\<close>) or a pass of \<^verbatim>\<open>loop\<close>. Each handler
  runs to its end before the next event.
\<close>

datatype event = Receive int32 int32 | Request | ScanPass inputs

fun step :: "state \<Rightarrow> event \<Rightarrow> fault + state" where
  "step st (Receive nBytes rd) = Inr (onI2Creceive nBytes rd st)"
| "step st Request = (case onI2Crequest st of Inl f \<Rightarrow> Inl f | Inr (bytes, st1) \<Rightarrow> Inr st1)"
| "step st (ScanPass inp) = loop inp st"

fun run :: "state \<Rightarrow> event list \<Rightarrow> fault + state" where
  "run st [] = Inr st"
| "run st (e # es) = (case step st e of Inl f \<Rightarrow> Inl f | Inr st1 \<Rightarrow> run st1 es)"

section \<open>Notions used in the statements\<close>

text \<open>
  The order in which a scan with cursor \<open>c\<close> is meant to visit the registry: from
  \<open>c\<close> to the last index, then from index 0 to \<open>c - 1\<close>.
\<close>

definition scan_order :: "nat \<Rightarrow> nat list" where
  "scan_order c = [c ..< MAX_CONTROLLERS] @ [0 ..< c]"

text \<open>
  The level that a scan of the registry \<open>cs\<close> with the given cursor leaves on the
  interrupt pin: \<^verbatim>\<open>HIGH\<close> when no controller is dirty, \<^verbatim>\<open>LOW\<close> otherwise.
\<close>

definition pin_after :: "Controller list \<Rightarrow> u8 \<Rightarrow> bool" where
  "pin_after cs cursor =
     (if find (\<lambda>j. dirty (cs ! j)) (scan_order (unat cursor)) = None then HIGH else LOW)"

text \<open>
  An event whose register address, if it carries one, is at most the size of the
  registry (a message with a negative byte count is dropped by the handler).
\<close>

fun in_range_event :: "event \<Rightarrow> bool" where
  "in_range_event (Receive nBytes rd) = (nBytes <s 0 \<or> rd \<le> of_nat MAX_CONTROLLERS)"
| "in_range_event Request = True"
| "in_range_event (ScanPass inp) = True"

text \<open>
  A reading of the 12-bit converter: a value of \<^verbatim>\<open>analogRead\<close>, and so every
  value stored for a potentiometer.
\<close>

definition adc_range :: "int32 \<Rightarrow> bool" where
  "adc_range x = (0 \<le>s x \<and> x <s 4096)"

text \<open>
  Successive cycles of the filter on one potentiometer: each element is the
  sample of a cycle and the clock of that cycle.
\<close>

definition adc_run :: "(int32 \<times> u32) list \<Rightarrow> Controller \<Rightarrow> Controller" where
  "adc_run ss p = fold (\<lambda>x. adc_sample (fst x) (snd x)) ss p"

text \<open>
  What potentiometer \<open>n\<close> is given in successive passes of \<^verbatim>\<open>loop\<close>: for each pass
  the sample of its multiplexer position and input, and the clock of its stamp.
\<close>

definition pot_samples :: "nat \<Rightarrow> inputs list \<Rightarrow> (int32 \<times> u32) list" where
  "pot_samples n inps = map (\<lambda>inp. (analogRead inp (n mod 8) (n div 8), millis_adc inp n)) inps"

text \<open>
  The same for a sequence of events: the passes among them give the samples,
  messages and requests give none.
\<close>

fun event_samples :: "nat \<Rightarrow> event list \<Rightarrow> (int32 \<times> u32) list" where
  "event_samples m [] = []"
| "event_samples m (ScanPass inp # es)
     = (analogRead inp (m mod 8) (m div 8), millis_adc inp m) # event_samples m es"
| "event_samples m (e # es) = event_samples m es"

section \<open>Concrete states and inputs\<close>

text \<open>The registry after start-up with potentiometer 5 changed and not yet read.\<close>

definition one_dirty :: state where
  "one_dirty = (setup_state HIGH)\<lparr>g_anControllers := (g_anControllers (setup_state HIGH))
      [5 := \<lparr>dirty = True, value = 2049, count = 0, code = 0, type = CONTROLLER_TYPE_POT, time = 77\<rparr>]\<rparr>"

text \<open>A pass in which every input reads 0 and the clock reads 1000.\<close>

definition quiet :: inputs where
  "quiet = \<lparr>analogRead = (\<lambda>nMux nAdc. 0), switchRead = (\<lambda>nY nX. 0),
            encoderRead = (\<lambda>nY nX. 0), millis_adc = (\<lambda>n. 1000),
            millis_switch_test = (\<lambda>n. 1000), millis_switch_stamp = (\<lambda>n. 1000),
            millis_encoder = (\<lambda>n. 1000)\<rparr>"

text \<open>A pass in which potentiometer 5 reads 200, every other input 0 and the clock 1000.\<close>

definition turned :: inputs where
  "turned = \<lparr>analogRead = (\<lambda>nMux nAdc. if nMux = 5 \<and> nAdc = 0 then 200 else 0),
       switchRead = (\<lambda>nY nX. 0), encoderRead = (\<lambda>nY nX. 0),
       millis_adc = (\<lambda>n. 1000), millis_switch_test = (\<lambda>n. 1000),
       millis_switch_stamp = (\<lambda>n. 1000), millis_encoder = (\<lambda>n. 1000)\<rparr>"

text \<open>A potentiometer at rest at the raw value 100.\<close>

definition pot100 :: Controller where
  "pot100 = \<lparr>dirty = False, value = 100, count = 0, code = 0, type = CONTROLLER_TYPE_POT, time = 0\<rparr>"

text \<open>
  A switch whose last change was stamped 10 ms before the 32-bit clock wraps,
  and one whose last change was stamped at 1000 ms.
\<close>

definition wrap_switch :: Controller where
  "wrap_switch = \<lparr>dirty = False, value = 0, count = 0, code = 0,
                   type = CONTROLLER_TYPE_SWITCH, time = 0xFFFFFFF6\<rparr>"

definition late_switch :: Controller where
  "late_switch = \<lparr>dirty = False, value = 0, count = 0, code = 0,
                   type = CONTROLLER_TYPE_SWITCH, time = 1000\<rparr>"

text \<open>
  The registry after start-up with that first switch in place of switch 0, and a
  pass 5 ms after its last change in which switch 0 reads high.
\<close>

definition wrap_registry :: "Controller list" where
  "wrap_registry = (g_anControllers (setup_state HIGH))[SWITCH_START := wrap_switch]"

definition wrap_inputs :: inputs where
  "wrap_inputs = \<lparr>analogRead = (\<lambda>nMux nAdc. 0),
       switchRead = (\<lambda>nY nX. if nY = 0 \<and> nX = 0 then 1 else 0),
       encoderRead = (\<lambda>nY nX. 0),
       millis_adc = (\<lambda>n. 0xFFFFFFFB), millis_switch_test = (\<lambda>n. 0xFFFFFFFB),
       millis_switch_stamp = (\<lambda>n. 0xFFFFFFFB), millis_encoder = (\<lambda>n. 0xFFFFFFFB)\<rparr>"

text \<open>
  The registry after start-up with the first encoder one transition before the
  end of a clockwise cycle (code 1, history 0x01), and a pass in which clock and
  data of the first encoder and the clock of the second encoder read high.
\<close>

definition enc_registry :: "Controller list" where
  "enc_registry = (g_anControllers (setup_state HIGH))
     [ENCODER_START := \<lparr>dirty = False, value = 0, count = 0x01, code = 0x01,
               type = CONTROLLER_TYPE_ENCODER, time = 0\<rparr>]"

definition enc_inputs :: inputs where
  "enc_inputs = \<lparr>analogRead = (\<lambda>nMux nAdc. 0), switchRead = (\<lambda>nY nX. 0),
       encoderRead = (\<lambda>nY nX. if nY = 0 \<and> nX < 3 then 1 else 0),
       millis_adc = (\<lambda>n. 1000), millis_switch_test = (\<lambda>n. 1000),
       millis_switch_stamp = (\<lambda>n. 1000), millis_encoder = (\<lambda>n. 1000)\<rparr>"

section \<open>Reading a controller's value\<close>

lemma getValue_pot:
  "type c = CONTROLLER_TYPE_POT \<Longrightarrow> getValue c = (signed_drop_bit ADC_MASK_BITS (value c), c)"
  by (simp add: getValue_def)

lemma getValue_encoder:
  "type c = CONTROLLER_TYPE_ENCODER \<Longrightarrow> getValue c = (value c, c\<lparr>value := 0\<rparr>)"
  by (simp add: getValue_def CONTROLLER_TYPE_ENCODER_def CONTROLLER_TYPE_POT_def)

lemma getValue_other:
  "type c \<noteq> CONTROLLER_TYPE_POT \<Longrightarrow> type c \<noteq> CONTROLLER_TYPE_ENCODER \<Longrightarrow>
   getValue c = (value c, c)"
  by (simp add: getValue_def)

text \<open>
  Claim C7. Reading the value of an encoder returns the stored value and leaves
  0 stored, so that reading it again at once returns 0.
\<close>

theorem encoder_read_resets:
  assumes "type e = CONTROLLER_TYPE_ENCODER"
  shows "fst (getValue e) = value e
       \<and> value (snd (getValue e)) = 0
       \<and> fst (getValue (snd (getValue e))) = 0"
  using assms by (simp add: getValue_encoder)

theorem encoder_read_resets_witness:
  "fst (getValue \<lparr>dirty = True, value = 7, count = 0x17, code = 0,
                    type = CONTROLLER_TYPE_ENCODER, time = 1000\<rparr>) = 7
   \<and> fst (getValue (snd (getValue \<lparr>dirty = True, value = 7, count = 0x17, code = 0,
                    type = CONTROLLER_TYPE_ENCODER, time = 1000\<rparr>))) = 0"
  using encoder_read_resets [of "\<lparr>dirty = True, value = 7, count = 0x17, code = 0,
                    type = CONTROLLER_TYPE_ENCODER, time = 1000\<rparr>"]
  by simp

text \<open>
  Claim C10. The read transform of a potentiometer or of a switch returns the
  record as it was; that of an encoder changes the field \<open>value\<close> alone, to 0.
\<close>

theorem getValue_frame:
  "(type c = CONTROLLER_TYPE_POT \<or> type c = CONTROLLER_TYPE_SWITCH \<longrightarrow> snd (getValue c) = c)
   \<and> (type c = CONTROLLER_TYPE_ENCODER \<longrightarrow> snd (getValue c) = c\<lparr>value := 0\<rparr>)"
  by (simp add: getValue_def CONTROLLER_TYPE_ENCODER_def CONTROLLER_TYPE_POT_def
      CONTROLLER_TYPE_SWITCH_def)

theorem getValue_frame_witness:
  "snd (getValue \<lparr>dirty = True, value = 2049, count = 3, code = 0,
                    type = CONTROLLER_TYPE_POT, time = 5\<rparr>)
     = \<lparr>dirty = True, value = 2049, count = 3, code = 0, type = CONTROLLER_TYPE_POT, time = 5\<rparr>
   \<and> snd (getValue \<lparr>dirty = True, value = 1, count = 0, code = 0,
                    type = CONTROLLER_TYPE_SWITCH, time = 5\<rparr>)
     = \<lparr>dirty = True, value = 1, count = 0, code = 0, type = CONTROLLER_TYPE_SWITCH, time = 5\<rparr>
   \<and> snd (getValue \<lparr>dirty = True, value = - 3, count = 0xd4, code = 0,
                    type = CONTROLLER_TYPE_ENCODER, time = 5\<rparr>)
     = \<lparr>dirty = True, value = 0, count = 0xd4, code = 0, type = CONTROLLER_TYPE_ENCODER, time = 5\<rparr>"
  using getValue_frame [of "\<lparr>dirty = True, value = 2049, count = 3, code = 0,
                    type = CONTROLLER_TYPE_POT, time = 5\<rparr>"]
    getValue_frame [of "\<lparr>dirty = True, value = 1, count = 0, code = 0,
                    type = CONTROLLER_TYPE_SWITCH, time = 5\<rparr>"]
    getValue_frame [of "\<lparr>dirty = True, value = - 3, count = 0xd4, code = 0,
                    type = CONTROLLER_TYPE_ENCODER, time = 5\<rparr>"]
  by simp

section \<open>The change scanner: what a scan returns\<close>

lemma MAX_CONTROLLERS_eq: "MAX_CONTROLLERS = 144"
  by (simp add: MAX_CONTROLLERS_def ENCODER_START_def MAX_POTS_def MAX_SWITCHES_def MAX_ENCODERS_def)

text \<open>A loop over indices of the registry returns the first dirty one.\<close>

lemma dirty_loop_in_range:
  "\<forall>i \<in> set is. i < MAX_CONTROLLERS \<Longrightarrow>
   dirty_loop cs is = Inr (find (\<lambda>i. dirty (cs ! i)) is)"
  by (induction "is") (auto simp: controller_at_def)

text \<open>A loop that finds no dirty controller in the registry and is given an index
  past its end reads past the array.\<close>

lemma dirty_loop_out_of_range:
  "\<forall>i \<in> set is. i < MAX_CONTROLLERS \<longrightarrow> \<not> dirty (cs ! i) \<Longrightarrow>
   \<exists>i \<in> set is. MAX_CONTROLLERS \<le> i \<Longrightarrow>
   dirty_loop cs is = Inl OutOfBounds"
  by (induction "is") (auto simp: controller_at_def)

lemma find_app:
  "find P (xs @ ys) = (case find P xs of Some x \<Rightarrow> Some x | None \<Rightarrow> find P ys)"
  by (induction xs) auto

lemma getDirty_in_range:
  assumes "unat (g_nLastRead st) \<le> MAX_CONTROLLERS"
  shows "getDirty st =
     Inr (case find (\<lambda>i. dirty (g_anControllers st ! i)) (scan_order (unat (g_nLastRead st))) of
            Some i \<Rightarrow> (of_nat (i + 1), st\<lparr>InterruptPin := LOW\<rparr>)
          | None \<Rightarrow> (0, st\<lparr>InterruptPin := HIGH\<rparr>))"
proof -
  let ?c = "unat (g_nLastRead st)"
  have a: "dirty_loop (g_anControllers st) [?c ..< MAX_CONTROLLERS]
             = Inr (find (\<lambda>i. dirty (g_anControllers st ! i)) [?c ..< MAX_CONTROLLERS])"
    by (rule dirty_loop_in_range) simp
  have b: "dirty_loop (g_anControllers st) [0 ..< ?c]
             = Inr (find (\<lambda>i. dirty (g_anControllers st ! i)) [0 ..< ?c])"
    by (rule dirty_loop_in_range) (use assms in auto)
  show ?thesis
    by (simp add: getDirty_def a b scan_order_def find_app split: option.splits)
qed

lemma getDirty_out_of_range:
  assumes "MAX_CONTROLLERS < unat (g_nLastRead st)"
    and "\<forall>i < MAX_CONTROLLERS. \<not> dirty (g_anControllers st ! i)"
  shows "getDirty st = Inl OutOfBounds"
proof -
  have b: "dirty_loop (g_anControllers st) [0 ..< unat (g_nLastRead st)] = Inl OutOfBounds"
    by (rule dirty_loop_out_of_range) (use assms in auto)
  show ?thesis using assms(1) by (simp add: getDirty_def b)
qed

lemma setup_state_clean: "i < MAX_CONTROLLERS \<Longrightarrow> \<not> dirty (g_anControllers (setup_state pin) ! i)"
  by (simp add: setup_state_def)

lemma getDirty_pin:
  assumes "unat (g_nLastRead st) \<le> MAX_CONTROLLERS"
  shows "\<exists>d. getDirty st = Inr (d, st\<lparr>InterruptPin := pin_after (g_anControllers st) (g_nLastRead st)\<rparr>)"
  by (simp add: getDirty_in_range [OF assms] pin_after_def split: option.splits)

lemma getDirty_cursor:
  "getDirty st = Inr (d, st1) \<Longrightarrow> g_nLastRead st1 = g_nLastRead st"
  by (auto simp: getDirty_def split: sum.splits option.splits)

section \<open>The bus protocol handler\<close>

lemma xFF_mask: "(0xFF :: int32) = mask 8"
  by (simp add: mask_eq_exp_minus_1)

lemma le16_bytes:
  fixes v :: int32
  shows "(word_cat (ucast (signed_drop_bit 8 v) :: u8) (ucast (v AND 0xFF) :: u8) :: 16 word) = ucast v"
  unfolding xFF_mask
  by (rule bit_word_eqI) (auto simp add: bit_simps)

lemma sint_ucast16:
  fixes v :: int32
  assumes "- 32768 \<le> sint v" "sint v < 32768"
  shows "sint (ucast v :: 16 word) = sint v"
proof -
  have "(ucast v :: 16 word) = scast v"
    by (rule bit_word_eqI) (auto simp add: bit_simps)
  also have "\<dots> = word_of_int (sint v)"
    by (fact scast_eq)
  finally have e: "(ucast v :: 16 word) = word_of_int (sint v)" .
  have "sint (word_of_int (sint v) :: 16 word) = signed_take_bit (LENGTH(16) - 1) (sint v)"
    by (fact sint_sbintrunc')
  also have "\<dots> = sint v"
    by (rule signed_take_bit_int_eq_self) (use assms in simp_all)
  finally show ?thesis by (simp only: e)
qed

lemma sendValue_rejected:
  "controller = 0 \<or> MAX_CONTROLLERS < unat controller \<Longrightarrow> sendValue controller st = Inr ([], st)"
  by (simp add: sendValue_def)

lemma u8_of_index:
  assumes "i < MAX_CONTROLLERS"
  shows "unat (of_nat (i + 1) :: u8) = i + 1" "(of_nat (i + 1) :: u8) \<noteq> 0"
    "unat ((of_nat (i + 1) :: u8) - 1) = i"
    "(ucast (of_nat (i + 1) :: int32) :: u8) = of_nat (i + 1)"
    "(of_nat (i + 1) :: int32) \<noteq> 0"
proof -
  have i: "i < 144" using assms by (simp add: MAX_CONTROLLERS_eq)
  have "unat (of_nat (i + 1) :: u8) = (i + 1) mod 2 ^ LENGTH(8)"
    by (rule unat_of_nat)
  then show a: "unat (of_nat (i + 1) :: u8) = i + 1"
    using i by simp
  then show "(of_nat (i + 1) :: u8) \<noteq> 0"
    by (metis Suc_eq_plus1 nat.simps(3) unat_0)
  have "unat (of_nat i :: u8) = i mod 2 ^ LENGTH(8)"
    by (rule unat_of_nat)
  then show "unat ((of_nat (i + 1) :: u8) - 1) = i"
    using i by simp
  have "take_bit 32 (i + 1) = i + 1"
    using i by (simp add: take_bit_nat_eq_self)
  then show "(ucast (of_nat (i + 1) :: int32) :: u8) = of_nat (i + 1)"
    using unsigned_of_nat [of "i + 1", where 'b = 32 and 'a = "8 word"] by simp
  have "unat (of_nat (i + 1) :: int32) = (i + 1) mod 2 ^ LENGTH(32)"
    by (rule unat_of_nat)
  then have "unat (of_nat (i + 1) :: int32) = i + 1"
    using i by simp
  then show "(of_nat (i + 1) :: int32) \<noteq> 0"
    by (metis Suc_eq_plus1 nat.simps(3) unat_0)
qed

lemma sendValue_cursor:
  assumes "unat (g_nLastRead st) \<le> MAX_CONTROLLERS"
  shows "\<exists>bytes st1. sendValue r st = Inr (bytes, st1) \<and> g_nLastRead st1 = g_nLastRead st"
proof (cases "r = 0 \<or> MAX_CONTROLLERS < unat r")
  case True
  then show ?thesis by (simp add: sendValue_rejected)
next
  case False
  define st1 where "st1 = st\<lparr>g_anControllers := (g_anControllers st)
      [unat (r - 1) := (snd (getValue (g_anControllers st ! unat (r - 1))))\<lparr>dirty := False\<rparr>]\<rparr>"
  have "unat (g_nLastRead st1) \<le> MAX_CONTROLLERS"
    using assms by (simp add: st1_def)
  from getDirty_pin [OF this] obtain d st2 where d: "getDirty st1 = Inr (d, st2)"
    by blast
  then have "g_nLastRead st2 = g_nLastRead st"
    using getDirty_cursor [OF d] by (simp add: st1_def)
  with d False show ?thesis
    by (simp add: sendValue_def Let_def case_prod_beta st1_def [symmetric])
qed

lemma step_cursor:
  assumes "unat (g_nLastRead st) \<le> MAX_CONTROLLERS" and "in_range_event e"
  shows "\<exists>st1. step st e = Inr st1 \<and> unat (g_nLastRead st1) \<le> MAX_CONTROLLERS"
proof (cases e)
  case (Receive nBytes rd)
  show ?thesis
  proof (cases "nBytes <s 0")
    case True
    with assms Receive show ?thesis by (simp add: onI2Creceive_def)
  next
    case False
    with assms Receive have "rd \<le> 144" by (simp add: MAX_CONTROLLERS_eq)
    then have "unat rd \<le> 144" by (simp add: word_le_nat_alt)
    moreover have "unat (ucast rd :: u8) \<le> unat rd"
      by (simp add: unsigned_ucast_eq take_bit_nat_less_eq_self)
    ultimately have "unat (ucast rd :: u8) \<le> MAX_CONTROLLERS"
      by (simp add: MAX_CONTROLLERS_eq)
    with False Receive show ?thesis by (simp add: onI2Creceive_def)
  qed
next
  case Request
  show ?thesis
  proof (cases "g_nI2Cregister st = 0")
    case True
    with getDirty_pin [OF assms(1)] assms(1) Request show ?thesis
      by (auto simp: onI2Crequest_def)
  next
    case False
    from sendValue_cursor [OF assms(1), of "ucast (g_nI2Cregister st)"] False assms(1) Request
    show ?thesis
      by (auto simp: onI2Crequest_def)
  qed
next
  case (ScanPass inp)
  define st0 where "st0 = st\<lparr>g_anControllers :=
      readEncoder inp (readSwitch inp (readAdc inp (g_anControllers st)))\<rparr>"
  have "unat (g_nLastRead st0) \<le> MAX_CONTROLLERS"
    using assms by (simp add: st0_def)
  from getDirty_pin [OF this] obtain d st2 where d: "getDirty st0 = Inr (d, st2)"
    by blast
  from getDirty_cursor [OF d] assms(1) have "unat (g_nLastRead st2) \<le> MAX_CONTROLLERS"
    by (simp add: st0_def)
  with d ScanPass show ?thesis
    by (simp add: loop_def Let_def st0_def [symmetric])
qed

section \<open>Claims on the change scanner\<close>

text \<open>The order of a scan names no index twice, and names every index of the registry
  when the cursor is at most the size of the registry.\<close>

lemma scan_order_distinct: "distinct (scan_order c)"
  by (auto simp: scan_order_def)

lemma scan_order_set: "c \<le> MAX_CONTROLLERS \<Longrightarrow> set (scan_order c) = {0 ..< MAX_CONTROLLERS}"
  by (auto simp: scan_order_def)

lemma setup_state_find:
  "c \<le> MAX_CONTROLLERS \<Longrightarrow> find (\<lambda>j. dirty (g_anControllers (setup_state pin) ! j)) (scan_order c) = None"
  by (simp add: find_None_iff scan_order_set setup_state_clean)

lemma find_upt_first:
  assumes "i < n" and "P i" and "\<forall>j < i. \<not> P j"
  shows "find P [0 ..< n] = Some i"
proof -
  have "[0 ..< n] = [0 ..< i] @ i # [Suc i ..< n]"
    using assms(1) by (metis less_imp_le_nat upt_add_eq_append upt_conv_Cons le0 le_add_diff_inverse)
  moreover have "find P [0 ..< i] = None"
    using assms(3) by (simp add: find_None_iff)
  ultimately show ?thesis
    using assms(2) by (simp add: find_app)
qed

lemma one_dirty_find:
  "find (\<lambda>j. dirty (g_anControllers one_dirty ! j)) (scan_order 0) = Some 5"
  unfolding scan_order_def
  by (simp add: MAX_CONTROLLERS_eq find_upt_first [where i = 5] one_dirty_def setup_state_def nth_list_update)

text \<open>A request after an address above the size of the registry is dropped.\<close>

lemma onI2Crequest_rejected:
  assumes "MAX_CONTROLLERS < unat a" and "\<not> nBytes <s 0"
  shows "onI2Crequest (onI2Creceive nBytes (ucast a) st)
           = Inr ([], st\<lparr>g_nI2Cregister := 0, g_nLastRead := a\<rparr>)"
proof -
  have rt: "(ucast (ucast a :: int32) :: u8) = a"
    by (rule bit_word_eqI) (auto simp add: bit_simps)
  have nz: "(ucast a :: int32) \<noteq> 0"
  proof
    assume "(ucast a :: int32) = 0"
    then have "(ucast (ucast a :: int32) :: u8) = 0" by simp
    then have "a = 0" by (simp only: rt)
    with assms(1) show False by simp
  qed
  show ?thesis
    using assms nz
    by (simp add: onI2Crequest_def onI2Creceive_def rt sendValue_rejected)
qed

text \<open>
  Claim C2. For every registry and every cursor, the change scan visits the
  registry from the cursor on, wrapping to index 0, and returns the 1-based index
  of the first dirty controller, or 0. The code does so for a cursor up to the
  size of the registry (\<open>getDirty_in_range\<close>). The cursor is the last received
  byte; past the size of the registry the second loop runs beyond the array. After
  start-up, with address 200 received and no controller dirty, the scan reads
  element 144 of an array of 144.
\<close>

theorem scan_reads_past_registry:
  "getDirty ((setup_state HIGH)\<lparr>g_nLastRead := 200\<rparr>) = Inl OutOfBounds
   \<and> run (setup_state HIGH) [Receive 1 200, Request, Request] = Inl OutOfBounds"
proof -
  have g: "getDirty ((setup_state HIGH)\<lparr>g_nI2Cregister := 0, g_nLastRead := 200\<rparr>) = Inl OutOfBounds"
    by (rule getDirty_out_of_range) (simp_all add: MAX_CONTROLLERS_eq setup_state_clean)
  have g': "getDirty ((setup_state HIGH)\<lparr>g_nLastRead := 200\<rparr>) = Inl OutOfBounds"
    by (rule getDirty_out_of_range) (simp_all add: MAX_CONTROLLERS_eq setup_state_clean)
  have r: "onI2Crequest (onI2Creceive 1 200 (setup_state HIGH))
     = Inr ([], (setup_state HIGH)\<lparr>g_nI2Cregister := 0, g_nLastRead := 200\<rparr>)"
    using onI2Crequest_rejected [of 200 1 "setup_state HIGH"]
    by (simp add: MAX_CONTROLLERS_eq word_sless_alt)
  have q: "onI2Crequest ((setup_state HIGH)\<lparr>g_nI2Cregister := 0, g_nLastRead := 200\<rparr>)
             = Inl OutOfBounds"
    by (simp add: onI2Crequest_def g)
  show ?thesis
    by (simp add: g' r q)
qed

lemma getDirty_frame:
  "getDirty st = Inr (d, st1) \<Longrightarrow> \<exists>pin. st1 = st\<lparr>InterruptPin := pin\<rparr>"
  by (auto simp: getDirty_def split: sum.splits option.splits)

text \<open>
  Claim C9. A request handled while no register is selected answers with one
  byte, and the state after it is the state before it with the interrupt pin
  driven: every controller record, the cursor and the selected register are as
  before. With the cursor at most the size of the registry the request does
  answer: the byte is the 1-based index of the next dirty controller, or 0.
\<close>

theorem idle_request_frame:
  assumes "g_nI2Cregister st = 0"
  shows "(\<forall>bytes st1. onI2Crequest st = Inr (bytes, st1)
            \<longrightarrow> (\<exists>d pin. bytes = [d] \<and> st1 = st\<lparr>InterruptPin := pin\<rparr>))
       \<and> (unat (g_nLastRead st) \<le> MAX_CONTROLLERS
            \<longrightarrow> onI2Crequest st
                = Inr ([case find (\<lambda>j. dirty (g_anControllers st ! j))
                               (scan_order (unat (g_nLastRead st))) of
                          Some j \<Rightarrow> of_nat (j + 1) | None \<Rightarrow> 0],
                       st\<lparr>InterruptPin := pin_after (g_anControllers st) (g_nLastRead st)\<rparr>))"
proof (intro conjI allI impI)
  fix bytes st1
  assume "onI2Crequest st = Inr (bytes, st1)"
  with assms obtain d where "getDirty st = Inr (d, st1)" and "bytes = [d]"
    by (auto simp: onI2Crequest_def split: sum.splits)
  with getDirty_frame show "\<exists>d pin. bytes = [d] \<and> st1 = st\<lparr>InterruptPin := pin\<rparr>"
    by blast
next
  assume "unat (g_nLastRead st) \<le> MAX_CONTROLLERS"
  with assms show "onI2Crequest st
                = Inr ([case find (\<lambda>j. dirty (g_anControllers st ! j))
                               (scan_order (unat (g_nLastRead st))) of
                          Some j \<Rightarrow> of_nat (j + 1) | None \<Rightarrow> 0],
                       st\<lparr>InterruptPin := pin_after (g_anControllers st) (g_nLastRead st)\<rparr>)"
    by (simp add: onI2Crequest_def getDirty_in_range pin_after_def split: option.splits)
qed

theorem idle_request_frame_witness:
  "onI2Crequest one_dirty = Inr ([6], one_dirty\<lparr>InterruptPin := LOW\<rparr>)"
proof -
  have a: "g_nI2Cregister one_dirty = 0" "g_nLastRead one_dirty = 0"
    by (simp_all add: setup_state_def one_dirty_def)
  show ?thesis
    using idle_request_frame [OF a(1)]
    by (simp add: a pin_after_def one_dirty_find)
qed

section \<open>Claims on the bus protocol handler\<close>

text \<open>
  Claim C1. With register \<open>i + 1\<close> of a controller \<open>C\<close> selected, a request
  answers with two bytes, the low byte first, of the value that the read
  transform of \<open>C\<close> returns (the raw value shifted right by the mask bits for a
  potentiometer, the stored value otherwise); they are the 16-bit two's
  complement value when it fits. \<open>C\<close> is left clean, an encoder also with value
  0, the selected register is 0, and the change scan has run on the new registry.
  The message that selects a register stores its address in the cursor as well,
  so the cursor is at most the size of the registry.
\<close>

theorem request_sends_selected_value:
  assumes "i < MAX_CONTROLLERS"
    and "g_nI2Cregister st = of_nat (i + 1)"
    and "unat (g_nLastRead st) \<le> MAX_CONTROLLERS"
    and "length (g_anControllers st) = MAX_CONTROLLERS"
  shows
    "let C = g_anControllers st ! i;
         v = (if type C = CONTROLLER_TYPE_POT then signed_drop_bit ADC_MASK_BITS (value C)
              else value C);
         cs1 = (g_anControllers st)[i := (snd (getValue C))\<lparr>dirty := False\<rparr>];
         st1 = st\<lparr>g_anControllers := cs1\<rparr>;
         st2 = st1\<lparr>InterruptPin := pin_after cs1 (g_nLastRead st)\<rparr>
     in onI2Crequest st
          = Inr ([ucast (v AND 0xFF), ucast (signed_drop_bit 8 v)], st2\<lparr>g_nI2Cregister := 0\<rparr>)
      \<and> (word_cat (ucast (signed_drop_bit 8 v) :: u8) (ucast (v AND 0xFF) :: u8) :: 16 word)
          = ucast v
      \<and> (- 32768 \<le> sint v \<and> sint v < 32768
           \<longrightarrow> sint (word_cat (ucast (signed_drop_bit 8 v) :: u8) (ucast (v AND 0xFF) :: u8) :: 16 word)
               = sint v)
      \<and> fst (getValue C) = v
      \<and> cs1 ! i = (if type C = CONTROLLER_TYPE_ENCODER then C\<lparr>value := 0, dirty := False\<rparr>
                   else C\<lparr>dirty := False\<rparr>)
      \<and> (\<exists>d. getDirty st1 = Inr (d, st2))"
proof -
  define C where "C = g_anControllers st ! i"
  define v where "v = (if type C = CONTROLLER_TYPE_POT
                       then signed_drop_bit ADC_MASK_BITS (value C) else value C)"
  define cs1 where "cs1 = (g_anControllers st)[i := (snd (getValue C))\<lparr>dirty := False\<rparr>]"
  define st1 where "st1 = st\<lparr>g_anControllers := cs1\<rparr>"
  define st2 where "st2 = st1\<lparr>InterruptPin := pin_after cs1 (g_nLastRead st)\<rparr>"
  have gv: "fst (getValue C) = v"
    by (simp add: getValue_def v_def)
  have cur: "unat (g_nLastRead st1) \<le> MAX_CONTROLLERS"
    using assms(3) by (simp add: st1_def)
  from getDirty_pin [OF cur] obtain d where d: "getDirty st1 = Inr (d, st2)"
    by (auto simp: st1_def st2_def)
  define r :: u8 where "r = of_nat (i + 1)"
  have r: "r \<noteq> 0" "unat r = i + 1" "unat (r - 1) = i"
    unfolding r_def by (rule u8_of_index [OF assms(1)])+
  have reg: "g_nI2Cregister st \<noteq> 0" "ucast (g_nI2Cregister st) = r"
    unfolding r_def assms(2) by (rule u8_of_index [OF assms(1)])+
  have sv: "sendValue r st
              = Inr ([ucast (v AND 0xFF), ucast (signed_drop_bit 8 v)], st2)"
    using d gv assms(1)
    by (simp add: sendValue_def r Let_def case_prod_beta
        C_def [symmetric] cs1_def [symmetric] st1_def [symmetric])
  have rq: "onI2Crequest st
              = Inr ([ucast (v AND 0xFF), ucast (signed_drop_bit 8 v)], st2\<lparr>g_nI2Cregister := 0\<rparr>)"
    by (simp add: onI2Crequest_def reg sv)
  have i: "i < length (g_anControllers st)"
    using assms by simp
  have n: "cs1 ! i = (if type C = CONTROLLER_TYPE_ENCODER then C\<lparr>value := 0, dirty := False\<rparr>
                      else C\<lparr>dirty := False\<rparr>)"
    using i by (simp add: cs1_def getValue_def CONTROLLER_TYPE_ENCODER_def CONTROLLER_TYPE_POT_def)
  have sg: "- 32768 \<le> sint v \<and> sint v < 32768
           \<longrightarrow> sint (word_cat (ucast (signed_drop_bit 8 v) :: u8) (ucast (v AND 0xFF) :: u8) :: 16 word)
               = sint v"
    by (simp only: le16_bytes) (simp add: sint_ucast16)
  show ?thesis
    unfolding Let_def
    using rq le16_bytes [of v] sg gv n d
    unfolding C_def v_def cs1_def st1_def st2_def
    by simp
qed

lemma read_find:
  "find (\<lambda>j. dirty ((g_anControllers one_dirty)
      [5 := \<lparr>dirty = False, value = 2049, count = 0, code = 0, type = CONTROLLER_TYPE_POT, time = 77\<rparr>] ! j))
     (scan_order 6) = None"
  by (auto simp add: find_None_iff scan_order_set MAX_CONTROLLERS_eq one_dirty_def setup_state_def nth_list_update)

theorem request_sends_selected_value_witness:
  "onI2Crequest (onI2Creceive 1 6 one_dirty)
     = Inr ([0, 2],
            one_dirty\<lparr>g_nLastRead := 6, g_nI2Cregister := 0, InterruptPin := HIGH,
              g_anControllers := (g_anControllers one_dirty)
                [5 := \<lparr>dirty = False, value = 2049, count = 0, code = 0,
                        type = CONTROLLER_TYPE_POT, time = 77\<rparr>]\<rparr>)"
proof -
  let ?st = "onI2Creceive 1 6 one_dirty"
  have st: "?st = one_dirty\<lparr>g_nI2Cregister := 6, g_nLastRead := 6\<rparr>"
    by (simp add: onI2Creceive_def word_sless_alt)
  have h1: "5 < MAX_CONTROLLERS" by (simp add: MAX_CONTROLLERS_eq)
  have h2: "g_nI2Cregister ?st = of_nat (5 + 1)" by (simp add: st)
  have h3: "unat (g_nLastRead ?st) \<le> MAX_CONTROLLERS" by (simp add: st MAX_CONTROLLERS_eq)
  have l: "length (g_anControllers one_dirty) = MAX_CONTROLLERS"
    by (simp add: one_dirty_def setup_state_def)
  have h4: "length (g_anControllers ?st) = MAX_CONTROLLERS"
    by (simp add: st l)
  have c: "g_anControllers one_dirty ! 5
      = \<lparr>dirty = True, value = 2049, count = 0, code = 0, type = CONTROLLER_TYPE_POT, time = 77\<rparr>"
    by (simp add: one_dirty_def setup_state_def MAX_CONTROLLERS_eq)
  have v: "signed_drop_bit ADC_MASK_BITS (2049 :: int32) = 512"
    by (simp add: ADC_MASK_BITS_def ADC_BITS_def)
  show ?thesis
    using request_sends_selected_value [OF h1 h2 h3 h4]
    by (simp add: Let_def st c v getValue_pot pin_after_def read_find state.defs)
qed

text \<open>
  Claim C5. A received register address above the size of the registry followed
  by a request: no byte is written, no element of the registry is read or
  written, every controller record is as before and the selected register is 0.
  (The cursor stays at the received address.)
\<close>

theorem out_of_range_register_ignored:
  assumes "MAX_CONTROLLERS < unat a" and "\<not> nBytes <s 0"
  shows "onI2Crequest (onI2Creceive nBytes (ucast a) st)
           = Inr ([], st\<lparr>g_nI2Cregister := 0, g_nLastRead := a\<rparr>)"
  using assms by (rule onI2Crequest_rejected)

theorem out_of_range_register_ignored_witness:
  "onI2Crequest (onI2Creceive 1 200 (setup_state HIGH))
     = Inr ([], (setup_state HIGH)\<lparr>g_nI2Cregister := 0, g_nLastRead := 200\<rparr>)"
  using out_of_range_register_ignored [of 200 1 "setup_state HIGH"]
  by (simp add: MAX_CONTROLLERS_eq word_sless_alt)

section \<open>Claims on the cursor\<close>

text \<open>
  Claim C6, as the code has it. The cursor is the last received byte, a 1-based
  address: after address 144, the last controller, it is 144, one past the last
  index, and the scan starts over at index 0.
\<close>

theorem cursor_counterexample:
  "run (setup_state HIGH) [Receive 1 144] = Inr (onI2Creceive 1 144 (setup_state HIGH))
   \<and> unat (g_nLastRead (onI2Creceive 1 144 (setup_state HIGH))) = 144
   \<and> \<not> unat (g_nLastRead (onI2Creceive 1 144 (setup_state HIGH))) < MAX_CONTROLLERS"
  by (simp add: onI2Creceive_def word_sless_alt MAX_CONTROLLERS_eq setup_state_def)

text \<open>
  Claim C6, amended. After every sequence of messages, requests and passes of
  the loop in which every received address is at most the size of the registry,
  no step reads past the registry and the cursor is at most the size of the
  registry.
\<close>

theorem cursor_within_registry:
  assumes "unat (g_nLastRead st) \<le> MAX_CONTROLLERS" and "\<forall>e \<in> set es. in_range_event e"
  shows "\<exists>st1. run st es = Inr st1 \<and> unat (g_nLastRead st1) \<le> MAX_CONTROLLERS"
  using assms
proof (induction es arbitrary: st)
  case Nil
  then show ?case by simp
next
  case (Cons e es)
  from step_cursor [OF Cons.prems(1), of e] Cons.prems(2)
  obtain st1 where s: "step st e = Inr st1" "unat (g_nLastRead st1) \<le> MAX_CONTROLLERS"
    by auto
  from Cons.IH [OF s(2)] Cons.prems(2) s(1) show ?case by simp
qed

theorem cursor_within_registry_witness:
  "\<exists>st1. run (setup_state HIGH) [Receive 1 144, Request, ScanPass quiet, Receive 1 0, Request]
             = Inr st1
        \<and> unat (g_nLastRead st1) \<le> MAX_CONTROLLERS"
proof -
  have a: "unat (g_nLastRead (setup_state HIGH)) \<le> MAX_CONTROLLERS"
    by (simp add: setup_state_def)
  have b: "\<forall>e \<in> set [Receive 1 144, Request, ScanPass quiet, Receive 1 0, Request]. in_range_event e"
    by (simp add: MAX_CONTROLLERS_eq)
  show ?thesis
    using cursor_within_registry [OF a b] .
qed

section \<open>Claims on the potentiometer filter\<close>

lemma mask_unit: "(push_bit ADC_MASK_BITS 1 :: int32) = 4" "(2 :: int) ^ ADC_MASK_BITS = 4"
  by (simp_all add: ADC_MASK_BITS_def ADC_BITS_def)

lemma filter_samples: "ADC_FILTER_SAMPLES = 8" "unat ADC_FILTER_SAMPLES = 8"
  by (simp_all add: ADC_FILTER_SAMPLES_def ADC_MASK_BITS_def ADC_BITS_def)

lemma sint_diff:
  assumes "adc_range a" "adc_range b"
  shows "sint (a - b) = sint a - sint b"
proof -
  have r: "0 \<le> sint a" "sint a < 4096" "0 \<le> sint b" "sint b < 4096"
    using assms by (simp_all add: adc_range_def word_sle_eq word_sless_alt)
  have "sint (a - b) = signed_take_bit (LENGTH(32) - 1) (sint a - sint b)"
    by (simp add: sint_word_ariths)
  also have "\<dots> = sint a - sint b"
    by (rule signed_take_bit_int_eq_self) (use r in simp_all)
  finally show ?thesis .
qed

lemma abs_int_distance:
  assumes "adc_range a" "adc_range b"
  shows "(abs_int (a - b) <s push_bit ADC_MASK_BITS 1) = (\<bar>sint a - sint b\<bar> < 2 ^ ADC_MASK_BITS)"
proof -
  have r: "0 \<le> sint a" "sint a < 4096" "0 \<le> sint b" "sint b < 4096"
    using assms by (simp_all add: adc_range_def word_sle_eq word_sless_alt)
  have d: "sint (a - b) = sint a - sint b"
    using assms by (rule sint_diff)
  have n: "sint (- (a - b)) = - (sint a - sint b)"
    using sint_diff [OF assms(2) assms(1)] by simp
  have n': "sint (b - a) = sint b - sint a"
    using assms(2) assms(1) by (rule sint_diff)
  show ?thesis
    unfolding mask_unit
    using r by (auto simp add: abs_int_def word_sless_alt d n')
qed

lemma adc_sample_noise:
  "abs_int (s - value p) <s push_bit ADC_MASK_BITS 1 \<Longrightarrow> adc_sample s t p = p\<lparr>count := 0\<rparr>"
  by (simp add: adc_sample_def)

lemma sint_ucast_u8: "sint (ucast (w :: u8) :: int32) = int (unat w)"
proof -
  have u: "uint (ucast w :: int32) = uint w"
    by (simp add: uint_up_ucast is_up)
  have b: "uint w < 2 ^ LENGTH(8)"
    by (rule uint_lt2p)
  have "sint (ucast w :: int32) = signed_take_bit (LENGTH(32) - 1) (uint (ucast w :: int32))"
    by (simp add: sint_uint)
  also have "\<dots> = uint w"
    unfolding u
  proof (rule signed_take_bit_int_eq_self)
    show "- (2 ^ (LENGTH(32) - 1)) \<le> uint w"
      by (rule order_trans [of _ 0]) simp_all
    show "uint w < 2 ^ (LENGTH(32) - 1)"
      using b by simp
  qed
  finally show ?thesis by simp
qed

lemma adc_sample_count:
  assumes "\<not> abs_int (s - value p) <s push_bit ADC_MASK_BITS 1" and "count p = of_nat c" and "c < 7"
  shows "adc_sample s t p = p\<lparr>count := of_nat (Suc c)\<rparr>"
proof -
  define w :: u8 where "w = of_nat (Suc c)"
  have "unat w = Suc c mod 2 ^ LENGTH(8)"
    unfolding w_def by (rule unat_of_nat)
  then have u: "unat w = Suc c"
    using assms(3) by simp
  have "sint (ucast w :: int32) = int (unat w)"
    by (rule sint_ucast_u8)
  then have "sint (ucast w :: int32) < 8"
    unfolding u using assms(3) by simp
  then have l: "ucast w <s ADC_FILTER_SAMPLES"
    by (simp add: word_sless_alt filter_samples)
  have e: "count p + 1 = w"
    by (simp add: assms(2) w_def)
  have "adc_sample s t p = p\<lparr>count := w\<rparr>"
    using assms(1) l by (simp add: adc_sample_def e)
  then show ?thesis
    by (simp only: w_def)
qed

lemma adc_sample_accept:
  assumes "\<not> abs_int (s - value p) <s push_bit ADC_MASK_BITS 1" and "count p = 7"
  shows "adc_sample s t p = p\<lparr>count := 0, value := s, dirty := True, time := t\<rparr>"
  using assms by (simp add: adc_sample_def filter_samples word_sless_alt)

lemma adc_run_noise:
  assumes "\<forall>x \<in> set ss. abs_int (fst x - value p) <s push_bit ADC_MASK_BITS 1"
  shows "adc_run ss (p\<lparr>count := 0\<rparr>) = p\<lparr>count := 0\<rparr>"
  using assms
proof (induction ss)
  case Nil
  then show ?case by (simp add: adc_run_def)
next
  case (Cons x ss)
  then have "adc_sample (fst x) (snd x) (p\<lparr>count := 0\<rparr>) = p\<lparr>count := 0\<rparr>"
    by (simp add: adc_sample_noise)
  with Cons show ?case by (simp add: adc_run_def)
qed

lemma adc_run_counting:
  assumes "\<forall>x \<in> set ss. \<not> abs_int (fst x - value p) <s push_bit ADC_MASK_BITS 1"
    and "count p = of_nat c" and "c + length ss < 8"
  shows "adc_run ss p = p\<lparr>count := of_nat (c + length ss)\<rparr>"
  using assms
proof (induction ss arbitrary: p c)
  case Nil
  then show ?case by (simp add: adc_run_def)
next
  case (Cons x ss)
  let ?p1 = "p\<lparr>count := of_nat (Suc c)\<rparr>"
  have s: "adc_sample (fst x) (snd x) p = ?p1"
    using Cons.prems by (intro adc_sample_count) simp_all
  have "adc_run ss ?p1 = ?p1\<lparr>count := of_nat (Suc c + length ss)\<rparr>"
    using Cons.prems by (intro Cons.IH) simp_all
  then show ?case
    using s by (simp add: adc_run_def)
qed

text \<open>A pass of \<^verbatim>\<open>readAdc\<close> applies the filter to every potentiometer, with the sample
  of its multiplexer position and input, and touches no other record.\<close>

lemma find_distinct_key:
  assumes "distinct (map idx ks)" and "k \<in> set ks"
  shows "find (\<lambda>k'. idx k' = idx k) ks = Some k"
  using assms by (induction ks) (auto simp: image_iff)

lemma fold_update_nth:
  assumes "distinct (map idx ks)" and "\<forall>k \<in> set ks. idx k < length cs"
  shows "fold (\<lambda>k cs. cs[idx k := g k (cs ! idx k)]) ks cs ! j
           = (case find (\<lambda>k. idx k = j) ks of None \<Rightarrow> cs ! j | Some k \<Rightarrow> g k (cs ! j))"
  using assms
proof (induction ks arbitrary: cs)
  case Nil
  then show ?case by simp
next
  case (Cons k ks)
  let ?cs = "cs[idx k := g k (cs ! idx k)]"
  have ih: "fold (\<lambda>k cs. cs[idx k := g k (cs ! idx k)]) ks ?cs ! j
           = (case find (\<lambda>k. idx k = j) ks of None \<Rightarrow> ?cs ! j | Some k \<Rightarrow> g k (?cs ! j))"
    using Cons.prems by (intro Cons.IH) simp_all
  show ?case
  proof (cases "idx k = j")
    case True
    then have "find (\<lambda>k. idx k = j) ks = None"
      using Cons.prems(1) by (auto simp: find_None_iff image_iff)
    with True ih Cons.prems(2) show ?thesis by simp
  next
    case False
    with ih show ?thesis by (simp split: option.splits)
  qed
qed

lemma fold_product:
  "fold (\<lambda>x. fold (\<lambda>y. h x y) ys) xs cs = fold (\<lambda>k. h (fst k) (snd k)) (List.product xs ys) cs"
  by (induction xs arbitrary: cs) (simp_all add: fold_map comp_def)

lemma adc_cells_distinct:
  "distinct (map (\<lambda>k. fst k + snd k * 8) (List.product [0..<8] [0..<8]))"
  by code_simp

lemma readAdc_fold:
  "readAdc inp cs
     = fold (\<lambda>k cs. cs[fst k + snd k * 8 :=
                adc_sample (analogRead inp (fst k) (snd k)) (millis_adc inp (fst k + snd k * 8))
                  (cs ! (fst k + snd k * 8))])
         (List.product [0..<8] [0..<8]) cs"
proof -
  have "readAdc inp cs = fold (\<lambda>k. readAdc_cell inp (fst k) (snd k)) (List.product [0..<8] [0..<8]) cs"
    by (simp only: readAdc_def fold_product)
  also have "\<dots> = fold (\<lambda>k cs. cs[fst k + snd k * 8 :=
                adc_sample (analogRead inp (fst k) (snd k)) (millis_adc inp (fst k + snd k * 8))
                  (cs ! (fst k + snd k * 8))])
         (List.product [0..<8] [0..<8]) cs"
  proof (rule fold_cong)
    fix k assume "k \<in> set (List.product [0..<8] [0..<8])"
    then have "fst k + snd k * 8 < POTS"
      by (auto simp: POTS_def)
    then show "readAdc_cell inp (fst k) (snd k)
        = (\<lambda>cs. cs[fst k + snd k * 8 :=
                adc_sample (analogRead inp (fst k) (snd k)) (millis_adc inp (fst k + snd k * 8))
                  (cs ! (fst k + snd k * 8))])"
      by (simp add: readAdc_cell_def POT_START_def fun_eq_iff Let_def)
  qed simp_all
  finally show ?thesis .
qed

lemma readAdc_nth:
  assumes "length cs = MAX_CONTROLLERS" and "n < POTS"
  shows "readAdc inp cs ! n
           = adc_sample (analogRead inp (n mod 8) (n div 8)) (millis_adc inp n) (cs ! n)"
proof -
  let ?k = "(n mod 8, n div 8)"
  have k: "?k \<in> set (List.product [0..<8] [0..<8])"
    using assms(2) by (simp add: POTS_def)
  have i: "fst ?k + snd ?k * 8 = n"
    by simp
  have b: "\<forall>k \<in> set (List.product [0..<8] [0..<8]). fst k + snd k * 8 < length cs"
    using assms(1) by (auto simp: MAX_CONTROLLERS_eq)
  have "find (\<lambda>k'. fst k' + snd k' * 8 = fst ?k + snd ?k * 8) (List.product [0..<8] [0..<8]) = Some ?k"
    using adc_cells_distinct k by (rule find_distinct_key)
  then have f: "find (\<lambda>k'. fst k' + snd k' * 8 = n) (List.product [0..<8] [0..<8]) = Some ?k"
    by (simp only: i)
  show ?thesis
    unfolding readAdc_fold
    using fold_update_nth [where idx = "\<lambda>k. fst k + snd k * 8"
        and g = "\<lambda>k. adc_sample (analogRead inp (fst k) (snd k)) (millis_adc inp (fst k + snd k * 8))",
        OF adc_cells_distinct b, of n]
    by (simp add: f)
qed

lemma readAdc_other:
  assumes "length cs = MAX_CONTROLLERS" and "POTS \<le> j"
  shows "readAdc inp cs ! j = cs ! j"
proof -
  have b: "\<forall>k \<in> set (List.product [0..<8] [0..<8]). fst k + snd k * 8 < length cs"
    using assms(1) by (auto simp: MAX_CONTROLLERS_eq)
  have f: "find (\<lambda>k'. fst k' + snd k' * 8 = j) (List.product [0..<8] [0..<8]) = None"
    using assms(2) by (auto simp: find_None_iff POTS_def)
  show ?thesis
    unfolding readAdc_fold
    using fold_update_nth [where idx = "\<lambda>k. fst k + snd k * 8"
        and g = "\<lambda>k. adc_sample (analogRead inp (fst k) (snd k)) (millis_adc inp (fst k + snd k * 8))",
        OF adc_cells_distinct b, of j]
    by (simp add: f)
qed

text \<open>Runs of the filter on one potentiometer: samples within one mask unit, and a
  full count of samples a mask unit or more away.\<close>

lemma adc_run_quiet:
  assumes "adc_range (value p)" and "\<forall>x \<in> set ss. adc_range (fst x)"
    and "ss \<noteq> []"
    and "\<forall>x \<in> set ss. \<bar>sint (fst x) - sint (value p)\<bar> < 2 ^ ADC_MASK_BITS"
  shows "adc_run ss p = p\<lparr>count := 0\<rparr>"
proof -
  from assms(3) obtain x xs where ss: "ss = x # xs"
    by (cases ss) auto
  have n: "\<forall>x \<in> set ss. abs_int (fst x - value p) <s push_bit ADC_MASK_BITS 1"
    using assms abs_int_distance by blast
  then have "adc_sample (fst x) (snd x) p = p\<lparr>count := 0\<rparr>"
    by (simp add: ss adc_sample_noise)
  moreover have "adc_run xs (p\<lparr>count := 0\<rparr>) = p\<lparr>count := 0\<rparr>"
    using n by (intro adc_run_noise) (simp add: ss)
  ultimately show ?thesis
    by (simp add: ss adc_run_def)
qed

lemma adc_run_sustained:
  assumes "adc_range (value p)" and "\<forall>x \<in> set ss. adc_range (fst x)"
    and "count p = 0" and "length ss = unat ADC_FILTER_SAMPLES"
    and "\<forall>x \<in> set ss. 2 ^ ADC_MASK_BITS \<le> \<bar>sint (fst x) - sint (value p)\<bar>"
  shows "\<forall>k < length ss. adc_run (take k ss) p = p\<lparr>count := of_nat k\<rparr>"
    and "adc_run ss p
           = p\<lparr>count := 0, value := fst (last ss), dirty := True, time := snd (last ss)\<rparr>"
proof -
  have len: "length ss = 8"
    using assms(4) by (simp add: filter_samples)
  have n: "\<forall>x \<in> set ss. \<not> abs_int (fst x - value p) <s push_bit ADC_MASK_BITS 1"
  proof
    fix x assume x: "x \<in> set ss"
    with assms(5) have "\<not> \<bar>sint (fst x) - sint (value p)\<bar> < 2 ^ ADC_MASK_BITS"
      by (simp add: not_less)
    with x assms(1,2) abs_int_distance
    show "\<not> abs_int (fst x - value p) <s push_bit ADC_MASK_BITS 1"
      by blast
  qed
  have pre: "adc_run (take k ss) p = p\<lparr>count := of_nat k\<rparr>" if "k < 8" for k
  proof -
    have "adc_run (take k ss) p = p\<lparr>count := of_nat (0 + length (take k ss))\<rparr>"
    proof (rule adc_run_counting)
      show "\<forall>x \<in> set (take k ss). \<not> abs_int (fst x - value p) <s push_bit ADC_MASK_BITS 1"
        using n by (meson in_set_takeD)
      show "count p = of_nat 0" using assms(3) by simp
      show "0 + length (take k ss) < 8" using that len by simp
    qed
    then show ?thesis using that len by simp
  qed
  show "\<forall>k < length ss. adc_run (take k ss) p = p\<lparr>count := of_nat k\<rparr>"
    using pre len by simp
  have ne: "ss \<noteq> []" using len by auto
  then have "ss = butlast ss @ [last ss]"
    by simp
  moreover have "butlast ss = take 7 ss"
    using len by (simp add: butlast_conv_take)
  ultimately have split: "ss = take 7 ss @ [last ss]"
    by simp
  have l: "\<not> abs_int (fst (last ss) - value p) <s push_bit ADC_MASK_BITS 1"
    using n ne by simp
  have "adc_run ss p = adc_sample (fst (last ss)) (snd (last ss)) (adc_run (take 7 ss) p)"
    by (subst split) (simp add: adc_run_def)
  also have "\<dots> = adc_sample (fst (last ss)) (snd (last ss)) (p\<lparr>count := 7\<rparr>)"
    using pre [of 7] by simp
  also have "\<dots> = p\<lparr>count := 0, value := fst (last ss), dirty := True, time := snd (last ss)\<rparr>"
    using l by (simp add: adc_sample_accept)
  finally show "adc_run ss p
      = p\<lparr>count := 0, value := fst (last ss), dirty := True, time := snd (last ss)\<rparr>" .
qed

text \<open>The other scans of a pass leave the potentiometers alone, so a sequence of
  passes runs the filter of each potentiometer on its samples.\<close>

lemma readAdc_length: "length (readAdc inp cs) = length cs"
proof -
  have c: "length (readAdc_cell inp m a xs) = length xs" for m a xs
    by (simp add: readAdc_cell_def Let_def)
  have i: "length (fold (\<lambda>a. readAdc_cell inp m a) as xs) = length xs" for m as xs
    by (induction as arbitrary: xs) (simp_all add: c)
  have "length (fold (\<lambda>m. fold (\<lambda>a. readAdc_cell inp m a) [0..<8]) ms xs) = length xs" for ms xs
    by (induction ms arbitrary: xs) (simp_all add: i)
  then show ?thesis by (simp add: readAdc_def)
qed

lemma readSwitch_cells_length: "length (readSwitch_cells inp cells cs) = length cs"
  by (induction inp cells cs rule: readSwitch_cells.induct) (simp_all add: Let_def)

lemma readSwitch_cells_below:
  "j < SWITCH_START \<Longrightarrow> readSwitch_cells inp cells cs ! j = cs ! j"
  by (induction inp cells cs rule: readSwitch_cells.induct) (simp_all add: Let_def)

lemma readEncoder_cells_length: "length (snd (readEncoder_cells inp cells s)) = length (snd s)"
  by (induction inp cells s rule: readEncoder_cells.induct) (simp_all add: Let_def)

lemma readEncoder_cells_below:
  "j < ENCODER_START \<Longrightarrow> snd (readEncoder_cells inp cells s) ! j = snd s ! j"
  by (induction inp cells s rule: readEncoder_cells.induct) (simp_all add: Let_def)

lemma getDirty_registry:
  "getDirty st = Inr (d, st1) \<Longrightarrow> g_anControllers st1 = g_anControllers st
     \<and> g_nI2Cregister st1 = g_nI2Cregister st"
  by (auto simp: getDirty_def split: sum.splits option.splits)

lemma loop_pot:
  assumes "length (g_anControllers st) = MAX_CONTROLLERS" and "n < POTS"
    and "unat (g_nLastRead st) \<le> MAX_CONTROLLERS"
  shows "\<exists>st1. loop inp st = Inr st1
     \<and> g_anControllers st1 ! n
         = adc_sample (analogRead inp (n mod 8) (n div 8)) (millis_adc inp n) (g_anControllers st ! n)
     \<and> length (g_anControllers st1) = MAX_CONTROLLERS
     \<and> g_nLastRead st1 = g_nLastRead st"
proof -
  define cs3 where "cs3 = readEncoder inp (readSwitch inp (readAdc inp (g_anControllers st)))"
  define st0 where "st0 = st\<lparr>g_anControllers := cs3\<rparr>"
  have s: "n < SWITCH_START" "n < ENCODER_START"
    using assms(2) by (simp_all add: POTS_def SWITCH_START_def ENCODER_START_def MAX_POTS_def)
  have n: "cs3 ! n = adc_sample (analogRead inp (n mod 8) (n div 8)) (millis_adc inp n) (g_anControllers st ! n)"
    using s assms(1,2)
    by (simp add: cs3_def readEncoder_def readSwitch_def readEncoder_cells_below
        readSwitch_cells_below readAdc_nth)
  have l: "length cs3 = MAX_CONTROLLERS"
    using assms(1)
    by (simp add: cs3_def readEncoder_def readSwitch_def readEncoder_cells_length
        readSwitch_cells_length readAdc_length)
  have "unat (g_nLastRead st0) \<le> MAX_CONTROLLERS"
    using assms(3) by (simp add: st0_def)
  from getDirty_pin [OF this] obtain d st1 where d: "getDirty st0 = Inr (d, st1)"
    by blast
  from getDirty_registry [OF d] getDirty_cursor [OF d]
  have "g_anControllers st1 = cs3" "g_nLastRead st1 = g_nLastRead st"
    by (simp_all add: st0_def)
  with d n l show ?thesis
    by (simp add: loop_def Let_def cs3_def [symmetric] st0_def [symmetric])
qed

lemma passes_pot:
  assumes "length (g_anControllers st) = MAX_CONTROLLERS" and "n < POTS"
    and "unat (g_nLastRead st) \<le> MAX_CONTROLLERS"
  shows "\<exists>st1. run st (map ScanPass inps) = Inr st1
     \<and> g_anControllers st1 ! n = adc_run (pot_samples n inps) (g_anControllers st ! n)
     \<and> length (g_anControllers st1) = MAX_CONTROLLERS
     \<and> g_nLastRead st1 = g_nLastRead st"
  using assms
proof (induction inps arbitrary: st)
  case Nil
  then show ?case by (simp add: adc_run_def pot_samples_def)
next
  case (Cons inp inps)
  from loop_pot [OF Cons.prems, of inp] obtain st1 where
    l: "loop inp st = Inr st1"
      "g_anControllers st1 ! n
         = adc_sample (analogRead inp (n mod 8) (n div 8)) (millis_adc inp n) (g_anControllers st ! n)"
      "length (g_anControllers st1) = MAX_CONTROLLERS" "g_nLastRead st1 = g_nLastRead st"
    by blast
  have c: "unat (g_nLastRead st1) \<le> MAX_CONTROLLERS"
    using l(4) Cons.prems(3) by simp
  from Cons.IH [OF l(3) Cons.prems(2) c] l show ?case
    by (auto simp add: adc_run_def pot_samples_def)
qed

lemma pot_samples_take: "pot_samples n (take k inps) = take k (pot_samples n inps)"
  by (simp add: pot_samples_def take_map)

lemma pot_samples_length: "length (pot_samples n inps) = length inps"
  by (simp add: pot_samples_def)

text \<open>The bus handlers leave the value, the counter and the type of a potentiometer as
  they are.\<close>

lemma onI2Creceive_registry: "g_anControllers (onI2Creceive nBytes rd st) = g_anControllers st"
  by (simp add: onI2Creceive_def)

lemma sendValue_pot_frame:
  assumes "sendValue r st = Inr (bytes, st1)" and "n < length (g_anControllers st)"
    and "type (g_anControllers st ! n) = CONTROLLER_TYPE_POT"
  shows "value (g_anControllers st1 ! n) = value (g_anControllers st ! n)
       \<and> count (g_anControllers st1 ! n) = count (g_anControllers st ! n)
       \<and> type (g_anControllers st1 ! n) = type (g_anControllers st ! n)"
proof (cases "r = 0 \<or> MAX_CONTROLLERS < unat r")
  case True
  with assms(1) show ?thesis by (simp add: sendValue_rejected)
next
  case False
  define cs1 where "cs1 = (g_anControllers st)
      [unat (r - 1) := (snd (getValue (g_anControllers st ! unat (r - 1))))\<lparr>dirty := False\<rparr>]"
  from assms(1) False obtain d where d: "getDirty (st\<lparr>g_anControllers := cs1\<rparr>) = Inr (d, st1)"
    by (auto simp add: sendValue_def Let_def case_prod_beta cs1_def split: sum.splits)
  from getDirty_registry [OF d] have e: "g_anControllers st1 = cs1"
    by simp
  show ?thesis
  proof (cases "unat (r - 1) = n")
    case True
    with assms(2,3) show ?thesis
      by (simp add: e cs1_def getValue_pot)
  next
    case False
    then show ?thesis
      by (simp add: e cs1_def)
  qed
qed

lemma onI2Crequest_pot_frame:
  assumes "onI2Crequest st = Inr (bytes, st1)" and "n < length (g_anControllers st)"
    and "type (g_anControllers st ! n) = CONTROLLER_TYPE_POT"
  shows "value (g_anControllers st1 ! n) = value (g_anControllers st ! n)
       \<and> count (g_anControllers st1 ! n) = count (g_anControllers st ! n)
       \<and> type (g_anControllers st1 ! n) = type (g_anControllers st ! n)"
proof (cases "g_nI2Cregister st = 0")
  case True
  with assms(1) obtain d where "getDirty st = Inr (d, st1)"
    by (auto simp: onI2Crequest_def split: sum.splits)
  from getDirty_registry [OF this] show ?thesis by simp
next
  case False
  with assms(1) obtain st2 where s: "sendValue (ucast (g_nI2Cregister st)) st = Inr (bytes, st2)"
    and e: "st1 = st2\<lparr>g_nI2Cregister := 0\<rparr>"
    by (auto simp: onI2Crequest_def split: sum.splits)
  from sendValue_pot_frame [OF s assms(2,3)] e show ?thesis by simp
qed

text \<open>Whatever messages and requests come between the passes, the value and the
  counter of a potentiometer are those of the filter run on the samples of the passes.\<close>

lemma adc_sample_same:
  assumes "value c = value c'" and "count c = count c'"
  shows "value (adc_sample s t c) = value (adc_sample s t c')
       \<and> count (adc_sample s t c) = count (adc_sample s t c')"
  using assms by (simp add: adc_sample_def)

lemma adc_run_same:
  assumes "value c = value c'" and "count c = count c'"
  shows "value (adc_run ss c) = value (adc_run ss c')
       \<and> count (adc_run ss c) = count (adc_run ss c')"
  using assms
proof (induction ss arbitrary: c c')
  case Nil
  then show ?case by (simp add: adc_run_def)
next
  case (Cons x ss)
  from adc_sample_same [OF Cons.prems, of "fst x" "snd x"]
  have "value (adc_run ss (adc_sample (fst x) (snd x) c))
          = value (adc_run ss (adc_sample (fst x) (snd x) c'))
       \<and> count (adc_run ss (adc_sample (fst x) (snd x) c))
          = count (adc_run ss (adc_sample (fst x) (snd x) c'))"
    by (intro Cons.IH) simp_all
  then show ?case by (simp add: adc_run_def)
qed

lemma adc_sample_type: "type (adc_sample s t c) = type c"
  by (simp add: adc_sample_def)

lemma sendValue_length:
  "sendValue r st = Inr (bytes, st1) \<Longrightarrow> length (g_anControllers st1) = length (g_anControllers st)"
proof (cases "r = 0 \<or> MAX_CONTROLLERS < unat r")
  case True
  assume "sendValue r st = Inr (bytes, st1)"
  with True show ?thesis by (simp add: sendValue_rejected)
next
  case False
  assume a: "sendValue r st = Inr (bytes, st1)"
  define cs1 where "cs1 = (g_anControllers st)
      [unat (r - 1) := (snd (getValue (g_anControllers st ! unat (r - 1))))\<lparr>dirty := False\<rparr>]"
  from a False obtain d where d: "getDirty (st\<lparr>g_anControllers := cs1\<rparr>) = Inr (d, st1)"
    by (auto simp add: sendValue_def Let_def case_prod_beta cs1_def split: sum.splits)
  from getDirty_registry [OF d] show ?thesis
    by (simp add: cs1_def)
qed

lemma onI2Crequest_length:
  assumes "onI2Crequest st = Inr (bytes, st1)"
  shows "length (g_anControllers st1) = length (g_anControllers st)"
proof (cases "g_nI2Cregister st = 0")
  case True
  with assms obtain d where "getDirty st = Inr (d, st1)"
    by (auto simp: onI2Crequest_def split: sum.splits)
  from getDirty_registry [OF this] show ?thesis by simp
next
  case False
  with assms obtain st2 where s: "sendValue (ucast (g_nI2Cregister st)) st = Inr (bytes, st2)"
    and e: "st1 = st2\<lparr>g_nI2Cregister := 0\<rparr>"
    by (auto simp: onI2Crequest_def split: sum.splits)
  from sendValue_length [OF s] e show ?thesis by simp
qed

lemma step_pot:
  assumes "length (g_anControllers st) = MAX_CONTROLLERS" and "m < POTS"
    and "unat (g_nLastRead st) \<le> MAX_CONTROLLERS" and "in_range_event e"
    and "type (g_anControllers st ! m) = CONTROLLER_TYPE_POT"
  shows "\<exists>st1. step st e = Inr st1
      \<and> length (g_anControllers st1) = MAX_CONTROLLERS
      \<and> unat (g_nLastRead st1) \<le> MAX_CONTROLLERS
      \<and> type (g_anControllers st1 ! m) = CONTROLLER_TYPE_POT
      \<and> value (g_anControllers st1 ! m)
          = value (adc_run (event_samples m [e]) (g_anControllers st ! m))
      \<and> count (g_anControllers st1 ! m)
          = count (adc_run (event_samples m [e]) (g_anControllers st ! m))"
proof (cases e)
  case (Receive nBytes rd)
  from step_cursor [OF assms(3,4)] obtain st1 where
    s: "step st e = Inr st1" "unat (g_nLastRead st1) \<le> MAX_CONTROLLERS"
    by blast
  with Receive have "g_anControllers st1 = g_anControllers st"
    by (auto simp: onI2Creceive_registry)
  with s assms Receive show ?thesis
    by (simp add: adc_run_def)
next
  case Request
  from step_cursor [OF assms(3,4)] obtain st1 where
    s: "step st e = Inr st1" "unat (g_nLastRead st1) \<le> MAX_CONTROLLERS"
    by blast
  with Request obtain bytes where r: "onI2Crequest st = Inr (bytes, st1)"
    by (auto split: sum.splits)
  have m: "m < length (g_anControllers st)"
    using assms(1,2) by (simp add: POTS_def MAX_CONTROLLERS_eq)
  from onI2Crequest_pot_frame [OF r m assms(5)] onI2Crequest_length [OF r] s assms(1,5) Request
  show ?thesis
    by (simp add: adc_run_def)
next
  case (ScanPass inp)
  from loop_pot [OF assms(1-3), of inp] obtain st1 where
    l: "loop inp st = Inr st1"
      "g_anControllers st1 ! m
         = adc_sample (analogRead inp (m mod 8) (m div 8)) (millis_adc inp m) (g_anControllers st ! m)"
      "length (g_anControllers st1) = MAX_CONTROLLERS" "g_nLastRead st1 = g_nLastRead st"
    by blast
  with assms(3,5) ScanPass show ?thesis
    by (simp add: adc_run_def adc_sample_type)
qed

lemma event_samples_Cons: "event_samples m (e # es) = event_samples m [e] @ event_samples m es"
  by (cases e) simp_all

lemma run_pot:
  assumes "length (g_anControllers st) = MAX_CONTROLLERS" and "m < POTS"
    and "unat (g_nLastRead st) \<le> MAX_CONTROLLERS" and "\<forall>e \<in> set es. in_range_event e"
    and "type (g_anControllers st ! m) = CONTROLLER_TYPE_POT"
  shows "\<exists>st1. run st es = Inr st1
      \<and> value (g_anControllers st1 ! m)
          = value (adc_run (event_samples m es) (g_anControllers st ! m))
      \<and> count (g_anControllers st1 ! m)
          = count (adc_run (event_samples m es) (g_anControllers st ! m))"
  using assms
proof (induction es arbitrary: st)
  case Nil
  then show ?case by (simp add: adc_run_def)
next
  case (Cons e es)
  have ie: "in_range_event e" "\<forall>e \<in> set es. in_range_event e"
    using Cons.prems(4) by simp_all
  from step_pot [OF Cons.prems(1-3) ie(1) Cons.prems(5)] obtain st1 where
    s: "step st e = Inr st1" "length (g_anControllers st1) = MAX_CONTROLLERS"
      "unat (g_nLastRead st1) \<le> MAX_CONTROLLERS"
      "type (g_anControllers st1 ! m) = CONTROLLER_TYPE_POT"
      "value (g_anControllers st1 ! m)
          = value (adc_run (event_samples m [e]) (g_anControllers st ! m))"
      "count (g_anControllers st1 ! m)
          = count (adc_run (event_samples m [e]) (g_anControllers st ! m))"
    by blast
  from Cons.IH [OF s(2) Cons.prems(2) s(3) ie(2) s(4)] obtain st2 where
    r: "run st1 es = Inr st2"
      "value (g_anControllers st2 ! m)
          = value (adc_run (event_samples m es) (g_anControllers st1 ! m))"
      "count (g_anControllers st2 ! m)
          = count (adc_run (event_samples m es) (g_anControllers st1 ! m))"
    by blast
  have a: "adc_run (event_samples m (e # es)) (g_anControllers st ! m)
      = adc_run (event_samples m es) (adc_run (event_samples m [e]) (g_anControllers st ! m))"
    by (subst event_samples_Cons) (simp add: adc_run_def)
  from adc_run_same [OF s(5,6), of "event_samples m es"] r s(1) show ?case
    by (simp add: a)
qed

text \<open>A request that follows the message selecting register \<open>n + 1\<close>.\<close>

lemma request_after_receive:
  assumes "n < MAX_CONTROLLERS" and "\<not> nBytes <s 0"
  shows "onI2Crequest (onI2Creceive nBytes (of_nat (n + 1)) st)
     = Inr ([ucast (fst (getValue (g_anControllers st ! n)) AND 0xFF),
             ucast (signed_drop_bit 8 (fst (getValue (g_anControllers st ! n))))],
            st\<lparr>g_nLastRead := of_nat (n + 1),
               g_anControllers := (g_anControllers st)
                 [n := (snd (getValue (g_anControllers st ! n)))\<lparr>dirty := False\<rparr>],
               InterruptPin := pin_after ((g_anControllers st)
                 [n := (snd (getValue (g_anControllers st ! n)))\<lparr>dirty := False\<rparr>]) (of_nat (n + 1)),
               g_nI2Cregister := 0\<rparr>)"
proof -
  define r :: u8 where "r = of_nat (n + 1)"
  define g :: int32 where "g = of_nat (n + 1)"
  define cs1 where "cs1 = (g_anControllers st)
                 [n := (snd (getValue (g_anControllers st ! n)))\<lparr>dirty := False\<rparr>]"
  define v where "v = fst (getValue (g_anControllers st ! n))"
  have r: "r \<noteq> 0" "unat r = n + 1" "unat (r - 1) = n"
    unfolding r_def by (rule u8_of_index [OF assms(1)])+
  have g: "g \<noteq> 0" "ucast g = r"
    unfolding r_def g_def by (rule u8_of_index [OF assms(1)])+
  define st0 where "st0 = st\<lparr>g_nI2Cregister := g, g_nLastRead := r\<rparr>"
  have rc: "onI2Creceive nBytes g st = st0"
    using assms(2) by (simp add: onI2Creceive_def st0_def g)
  define st1 where "st1 = st0\<lparr>g_anControllers := cs1\<rparr>"
  have "unat (g_nLastRead st1) \<le> MAX_CONTROLLERS"
    using assms(1) by (simp add: st1_def st0_def r)
  from getDirty_pin [OF this] obtain d where
    d: "getDirty st1 = Inr (d, st1\<lparr>InterruptPin := pin_after cs1 r\<rparr>)"
    by (auto simp: st1_def st0_def)
  have sv: "sendValue r st0
              = Inr ([ucast (v AND 0xFF), ucast (signed_drop_bit 8 v)], st1\<lparr>InterruptPin := pin_after cs1 r\<rparr>)"
    using d assms(1)
    by (simp add: sendValue_def r Let_def case_prod_beta st0_def st1_def cs1_def v_def)
  have reg: "g_nI2Cregister st0 = g"
    by (simp add: st0_def)
  have "onI2Crequest st0
          = Inr ([ucast (v AND 0xFF), ucast (signed_drop_bit 8 v)],
                 st1\<lparr>InterruptPin := pin_after cs1 r, g_nI2Cregister := 0\<rparr>)"
    using g reg by (simp add: onI2Crequest_def sv)
  moreover have "st1\<lparr>InterruptPin := pin_after cs1 r, g_nI2Cregister := 0\<rparr>
      = st\<lparr>g_nLastRead := r, g_anControllers := cs1, InterruptPin := pin_after cs1 r,
           g_nI2Cregister := 0\<rparr>"
    by (simp add: st1_def st0_def)
  ultimately have "onI2Crequest (onI2Creceive nBytes g st)
          = Inr ([ucast (v AND 0xFF), ucast (signed_drop_bit 8 v)],
                 st\<lparr>g_nLastRead := r, g_anControllers := cs1, InterruptPin := pin_after cs1 r,
                    g_nI2Cregister := 0\<rparr>)"
    by (simp only: rc)
  then show ?thesis
    unfolding g_def r_def cs1_def v_def .
qed

lemma passes_sustained:
  assumes "length (g_anControllers st) = MAX_CONTROLLERS" and "n < POTS"
    and "unat (g_nLastRead st) \<le> MAX_CONTROLLERS" and "\<not> nBytes <s 0"
    and "type (g_anControllers st ! n) = CONTROLLER_TYPE_POT"
    and "count (g_anControllers st ! n) = 0"
    and "adc_range (value (g_anControllers st ! n))"
    and "length inps = unat ADC_FILTER_SAMPLES"
    and "\<forall>x \<in> set (pot_samples n inps). adc_range (fst x)
           \<and> 2 ^ ADC_MASK_BITS \<le> \<bar>sint (fst x) - sint (value (g_anControllers st ! n))\<bar>"
  shows "let q = g_anControllers st ! n;
             s = fst (last (pot_samples n inps));
             t = snd (last (pot_samples n inps));
             v = signed_drop_bit ADC_MASK_BITS s
         in (\<forall>k < length inps. \<exists>stk. run st (map ScanPass (take k inps)) = Inr stk
                \<and> g_anControllers stk ! n = q\<lparr>count := of_nat k\<rparr>)
          \<and> (\<exists>st1 st2. run st (map ScanPass inps) = Inr st1
                \<and> g_anControllers st1 ! n = q\<lparr>count := 0, value := s, dirty := True, time := t\<rparr>
                \<and> onI2Crequest (onI2Creceive nBytes (of_nat (n + 1)) st1)
                    = Inr ([ucast (v AND 0xFF), ucast (signed_drop_bit 8 v)], st2)
                \<and> (word_cat (ucast (signed_drop_bit 8 v) :: u8) (ucast (v AND 0xFF) :: u8) :: 16 word)
                    = ucast v
                \<and> g_anControllers st2 ! n
                    = q\<lparr>count := 0, value := s, dirty := False, time := t\<rparr>)"
proof -
  define q where "q = g_anControllers st ! n"
  define ss where "ss = pot_samples n inps"
  define s where "s = fst (last ss)"
  define t where "t = snd (last ss)"
  define v where "v = signed_drop_bit ADC_MASK_BITS s"
  have h: "adc_range (value q)" "\<forall>x \<in> set ss. adc_range (fst x)" "count q = 0"
    "length ss = unat ADC_FILTER_SAMPLES"
    "\<forall>x \<in> set ss. 2 ^ ADC_MASK_BITS \<le> \<bar>sint (fst x) - sint (value q)\<bar>"
    using assms(6-9) by (simp_all add: q_def ss_def pot_samples_length)
  note sus = adc_run_sustained [OF h]
  have pre: "\<forall>k < length inps. \<exists>stk. run st (map ScanPass (take k inps)) = Inr stk
                \<and> g_anControllers stk ! n = q\<lparr>count := of_nat k\<rparr>"
  proof (intro allI impI)
    fix k assume k: "k < length inps"
    from passes_pot [OF assms(1-3), of "take k inps"] obtain stk where
      "run st (map ScanPass (take k inps)) = Inr stk"
      "g_anControllers stk ! n = adc_run (take k ss) q"
      by (auto simp: pot_samples_take ss_def q_def)
    moreover have "adc_run (take k ss) q = q\<lparr>count := of_nat k\<rparr>"
      using sus(1) k by (simp add: ss_def pot_samples_length)
    ultimately show "\<exists>stk. run st (map ScanPass (take k inps)) = Inr stk
                \<and> g_anControllers stk ! n = q\<lparr>count := of_nat k\<rparr>"
      by simp
  qed
  from passes_pot [OF assms(1-3), of inps] obtain st1 where
    r: "run st (map ScanPass inps) = Inr st1"
      "g_anControllers st1 ! n = adc_run ss q"
      "length (g_anControllers st1) = MAX_CONTROLLERS"
    by (auto simp: ss_def q_def)
  have rec: "g_anControllers st1 ! n = q\<lparr>count := 0, value := s, dirty := True, time := t\<rparr>"
    using r(2) sus(2) by (simp add: s_def t_def)
  have m: "n < MAX_CONTROLLERS"
    using assms(2) by (simp add: POTS_def MAX_CONTROLLERS_eq)
  have ty: "type q = CONTROLLER_TYPE_POT"
    using assms(5) by (simp add: q_def)
  have gv: "getValue (g_anControllers st1 ! n)
      = (v, q\<lparr>count := 0, value := s, dirty := True, time := t\<rparr>)"
    using ty by (simp add: rec getValue_pot v_def)
  define st2 where "st2 = st1\<lparr>g_nLastRead := of_nat (n + 1),
               g_anControllers := (g_anControllers st1)
                 [n := (snd (getValue (g_anControllers st1 ! n)))\<lparr>dirty := False\<rparr>],
               InterruptPin := pin_after ((g_anControllers st1)
                 [n := (snd (getValue (g_anControllers st1 ! n)))\<lparr>dirty := False\<rparr>]) (of_nat (n + 1)),
               g_nI2Cregister := 0\<rparr>"
  have rq: "onI2Crequest (onI2Creceive nBytes (of_nat (n + 1)) st1)
                    = Inr ([ucast (v AND 0xFF), ucast (signed_drop_bit 8 v)], st2)"
    using request_after_receive [OF m assms(4), of st1]
    by (simp only: gv fst_conv st2_def)
  have fin: "g_anControllers st2 ! n = q\<lparr>count := 0, value := s, dirty := False, time := t\<rparr>"
    using r(3) m by (simp add: st2_def gv)
  show ?thesis
    unfolding Let_def q_def [symmetric] ss_def [symmetric] s_def [symmetric] t_def [symmetric]
      v_def [symmetric]
    using pre r(1) rec rq fin le16_bytes [of v] by blast
qed

text \<open>
  Claim C4. A pass of \<^verbatim>\<open>readAdc\<close> applies the filter once to every potentiometer.
  For a potentiometer \<open>p\<close> and readings of the converter: samples
  that each differ from the stored raw value by less than one mask unit, however
  many, leave every field but the counter as it was (so they never set dirty) and
  the counter at 0. From a counter at 0, \<^verbatim>\<open>ADC_FILTER_SAMPLES\<close> successive samples
  that each differ from the stored value by a mask unit or more: the first
  \<open>k\<close> of them, \<open>k\<close> below that count, only move the counter to \<open>k\<close>; the
  last one sets dirty, stores the sample and the clock and resets the counter; and
  the read transform then returns that sample shifted right by the mask bits.

  On the device: passes of \<^verbatim>\<open>loop\<close> run this filter on potentiometer \<open>m\<close> with
  its samples, and the bus handlers change neither its value nor its counter:
  after any sequence of passes, messages with an address in range and requests,
  its value and counter are those of the filter run on the samples of the passes.
  So passes whose samples stay within one mask unit leave the record of \<open>m\<close> as
  it was, but for the counter at 0; and after \<^verbatim>\<open>ADC_FILTER_SAMPLES\<close> passes whose
  samples are a mask unit or more away, none of the earlier passes having set
  dirty, the record is dirty with the last sample, and the request that follows
  the message selecting register \<open>m + 1\<close> answers with the two bytes, low byte
  first, of that sample shifted right by the mask bits, and leaves the record
  clean.
\<close>

theorem adc_hysteresis:
  assumes "adc_range (value p)" and "\<forall>x \<in> set ss. adc_range (fst x)"
  shows
    "(length cs = MAX_CONTROLLERS \<and> n < POTS
        \<longrightarrow> readAdc inp cs ! n
            = adc_sample (analogRead inp (n mod 8) (n div 8)) (millis_adc inp n) (cs ! n))
   \<and> (ss \<noteq> [] \<and> (\<forall>x \<in> set ss. \<bar>sint (fst x) - sint (value p)\<bar> < 2 ^ ADC_MASK_BITS)
        \<longrightarrow> adc_run ss p = p\<lparr>count := 0\<rparr>)
   \<and> (count p = 0 \<and> length ss = unat ADC_FILTER_SAMPLES
        \<and> (\<forall>x \<in> set ss. 2 ^ ADC_MASK_BITS \<le> \<bar>sint (fst x) - sint (value p)\<bar>)
        \<longrightarrow> (\<forall>k < length ss. adc_run (take k ss) p = p\<lparr>count := of_nat k\<rparr>)
          \<and> adc_run ss p
              = p\<lparr>count := 0, value := fst (last ss), dirty := True, time := snd (last ss)\<rparr>
          \<and> (type p = CONTROLLER_TYPE_POT
               \<longrightarrow> fst (getValue (adc_run ss p)) = signed_drop_bit ADC_MASK_BITS (fst (last ss))))
   \<and> (length (g_anControllers st) = MAX_CONTROLLERS \<and> m < POTS
        \<and> unat (g_nLastRead st) \<le> MAX_CONTROLLERS
        \<longrightarrow> (\<exists>st1. run st (map ScanPass inps) = Inr st1
              \<and> g_anControllers st1 ! m = adc_run (pot_samples m inps) (g_anControllers st ! m)
              \<and> length (g_anControllers st1) = MAX_CONTROLLERS
              \<and> g_nLastRead st1 = g_nLastRead st))
   \<and> g_anControllers (onI2Creceive nBytes rd st) = g_anControllers st
   \<and> (onI2Crequest st = Inr (bytes, st')
        \<and> m < length (g_anControllers st)
        \<and> type (g_anControllers st ! m) = CONTROLLER_TYPE_POT
        \<longrightarrow> value (g_anControllers st' ! m) = value (g_anControllers st ! m)
          \<and> count (g_anControllers st' ! m) = count (g_anControllers st ! m)
          \<and> type (g_anControllers st' ! m) = type (g_anControllers st ! m))
   \<and> (length (g_anControllers st) = MAX_CONTROLLERS \<and> m < POTS
        \<and> unat (g_nLastRead st) \<le> MAX_CONTROLLERS
        \<and> adc_range (value (g_anControllers st ! m)) \<and> inps \<noteq> []
        \<and> (\<forall>x \<in> set (pot_samples m inps). adc_range (fst x)
              \<and> \<bar>sint (fst x) - sint (value (g_anControllers st ! m))\<bar> < 2 ^ ADC_MASK_BITS)
        \<longrightarrow> (\<exists>st1. run st (map ScanPass inps) = Inr st1
              \<and> g_anControllers st1 ! m = (g_anControllers st ! m)\<lparr>count := 0\<rparr>))
   \<and> (length (g_anControllers st) = MAX_CONTROLLERS \<and> m < POTS
        \<and> unat (g_nLastRead st) \<le> MAX_CONTROLLERS \<and> \<not> nBytes <s 0
        \<and> type (g_anControllers st ! m) = CONTROLLER_TYPE_POT
        \<and> count (g_anControllers st ! m) = 0
        \<and> adc_range (value (g_anControllers st ! m))
        \<and> length inps = unat ADC_FILTER_SAMPLES
        \<and> (\<forall>x \<in> set (pot_samples m inps). adc_range (fst x)
              \<and> 2 ^ ADC_MASK_BITS \<le> \<bar>sint (fst x) - sint (value (g_anControllers st ! m))\<bar>)
        \<longrightarrow> (let q = g_anControllers st ! m;
                 s = fst (last (pot_samples m inps));
                 t = snd (last (pot_samples m inps));
                 v = signed_drop_bit ADC_MASK_BITS s
             in (\<forall>k < length inps. \<exists>stk. run st (map ScanPass (take k inps)) = Inr stk
                    \<and> g_anControllers stk ! m = q\<lparr>count := of_nat k\<rparr>)
              \<and> (\<exists>st1 st2. run st (map ScanPass inps) = Inr st1
                    \<and> g_anControllers st1 ! m
                        = q\<lparr>count := 0, value := s, dirty := True, time := t\<rparr>
                    \<and> onI2Crequest (onI2Creceive nBytes (of_nat (m + 1)) st1)
                        = Inr ([ucast (v AND 0xFF), ucast (signed_drop_bit 8 v)], st2)
                    \<and> (word_cat (ucast (signed_drop_bit 8 v) :: u8) (ucast (v AND 0xFF) :: u8)
                          :: 16 word) = ucast v
                    \<and> g_anControllers st2 ! m
                        = q\<lparr>count := 0, value := s, dirty := False, time := t\<rparr>)))
   \<and> (length (g_anControllers st) = MAX_CONTROLLERS \<and> m < POTS
        \<and> unat (g_nLastRead st) \<le> MAX_CONTROLLERS \<and> (\<forall>e \<in> set es. in_range_event e)
        \<and> type (g_anControllers st ! m) = CONTROLLER_TYPE_POT
        \<longrightarrow> (\<exists>st1. run st es = Inr st1
              \<and> value (g_anControllers st1 ! m)
                  = value (adc_run (event_samples m es) (g_anControllers st ! m))
              \<and> count (g_anControllers st1 ! m)
                  = count (adc_run (event_samples m es) (g_anControllers st ! m))))"
proof (intro conjI)
  show "length cs = MAX_CONTROLLERS \<and> n < POTS
        \<longrightarrow> readAdc inp cs ! n
            = adc_sample (analogRead inp (n mod 8) (n div 8)) (millis_adc inp n) (cs ! n)"
    by (simp add: readAdc_nth)
  show "ss \<noteq> [] \<and> (\<forall>x \<in> set ss. \<bar>sint (fst x) - sint (value p)\<bar> < 2 ^ ADC_MASK_BITS)
        \<longrightarrow> adc_run ss p = p\<lparr>count := 0\<rparr>"
    using adc_run_quiet [OF assms] by blast
  show "count p = 0 \<and> length ss = unat ADC_FILTER_SAMPLES
        \<and> (\<forall>x \<in> set ss. 2 ^ ADC_MASK_BITS \<le> \<bar>sint (fst x) - sint (value p)\<bar>)
        \<longrightarrow> (\<forall>k < length ss. adc_run (take k ss) p = p\<lparr>count := of_nat k\<rparr>)
          \<and> adc_run ss p
              = p\<lparr>count := 0, value := fst (last ss), dirty := True, time := snd (last ss)\<rparr>
          \<and> (type p = CONTROLLER_TYPE_POT
               \<longrightarrow> fst (getValue (adc_run ss p)) = signed_drop_bit ADC_MASK_BITS (fst (last ss)))"
  proof (intro impI)
    assume b: "count p = 0 \<and> length ss = unat ADC_FILTER_SAMPLES
        \<and> (\<forall>x \<in> set ss. 2 ^ ADC_MASK_BITS \<le> \<bar>sint (fst x) - sint (value p)\<bar>)"
    then have h: "count p = 0" "length ss = unat ADC_FILTER_SAMPLES"
      "\<forall>x \<in> set ss. 2 ^ ADC_MASK_BITS \<le> \<bar>sint (fst x) - sint (value p)\<bar>"
      by simp_all
    note sus = adc_run_sustained [OF assms h]
    have "type p = CONTROLLER_TYPE_POT
               \<longrightarrow> fst (getValue (adc_run ss p)) = signed_drop_bit ADC_MASK_BITS (fst (last ss))"
      by (simp add: sus(2) getValue_pot)
    with sus show "(\<forall>k < length ss. adc_run (take k ss) p = p\<lparr>count := of_nat k\<rparr>)
          \<and> adc_run ss p
              = p\<lparr>count := 0, value := fst (last ss), dirty := True, time := snd (last ss)\<rparr>
          \<and> (type p = CONTROLLER_TYPE_POT
               \<longrightarrow> fst (getValue (adc_run ss p)) = signed_drop_bit ADC_MASK_BITS (fst (last ss)))"
      by blast
  qed
  show "length (g_anControllers st) = MAX_CONTROLLERS \<and> m < POTS
        \<and> unat (g_nLastRead st) \<le> MAX_CONTROLLERS
        \<longrightarrow> (\<exists>st1. run st (map ScanPass inps) = Inr st1
              \<and> g_anControllers st1 ! m = adc_run (pot_samples m inps) (g_anControllers st ! m)
              \<and> length (g_anControllers st1) = MAX_CONTROLLERS
              \<and> g_nLastRead st1 = g_nLastRead st)"
    using passes_pot [of st m inps] by blast
  show "g_anControllers (onI2Creceive nBytes rd st) = g_anControllers st"
    by (rule onI2Creceive_registry)
  show "onI2Crequest st = Inr (bytes, st')
        \<and> m < length (g_anControllers st)
        \<and> type (g_anControllers st ! m) = CONTROLLER_TYPE_POT
        \<longrightarrow> value (g_anControllers st' ! m) = value (g_anControllers st ! m)
          \<and> count (g_anControllers st' ! m) = count (g_anControllers st ! m)
          \<and> type (g_anControllers st' ! m) = type (g_anControllers st ! m)"
    using onI2Crequest_pot_frame [of st bytes st' m] by blast
  show "length (g_anControllers st) = MAX_CONTROLLERS \<and> m < POTS
        \<and> unat (g_nLastRead st) \<le> MAX_CONTROLLERS
        \<and> adc_range (value (g_anControllers st ! m)) \<and> inps \<noteq> []
        \<and> (\<forall>x \<in> set (pot_samples m inps). adc_range (fst x)
              \<and> \<bar>sint (fst x) - sint (value (g_anControllers st ! m))\<bar> < 2 ^ ADC_MASK_BITS)
        \<longrightarrow> (\<exists>st1. run st (map ScanPass inps) = Inr st1
              \<and> g_anControllers st1 ! m = (g_anControllers st ! m)\<lparr>count := 0\<rparr>)"
  proof (intro impI)
    assume a: "length (g_anControllers st) = MAX_CONTROLLERS \<and> m < POTS
        \<and> unat (g_nLastRead st) \<le> MAX_CONTROLLERS
        \<and> adc_range (value (g_anControllers st ! m)) \<and> inps \<noteq> []
        \<and> (\<forall>x \<in> set (pot_samples m inps). adc_range (fst x)
              \<and> \<bar>sint (fst x) - sint (value (g_anControllers st ! m))\<bar> < 2 ^ ADC_MASK_BITS)"
    then have ne: "pot_samples m inps \<noteq> []"
      by (simp add: pot_samples_def)
    from a have "adc_run (pot_samples m inps) (g_anControllers st ! m)
        = (g_anControllers st ! m)\<lparr>count := 0\<rparr>"
      by (intro adc_run_quiet ne) simp_all
    moreover from a passes_pot [of st m inps] obtain st1 where
      "run st (map ScanPass inps) = Inr st1"
      "g_anControllers st1 ! m = adc_run (pot_samples m inps) (g_anControllers st ! m)"
      by blast
    ultimately show "\<exists>st1. run st (map ScanPass inps) = Inr st1
              \<and> g_anControllers st1 ! m = (g_anControllers st ! m)\<lparr>count := 0\<rparr>"
      by simp
  qed
  show "length (g_anControllers st) = MAX_CONTROLLERS \<and> m < POTS
        \<and> unat (g_nLastRead st) \<le> MAX_CONTROLLERS \<and> \<not> nBytes <s 0
        \<and> type (g_anControllers st ! m) = CONTROLLER_TYPE_POT
        \<and> count (g_anControllers st ! m) = 0
        \<and> adc_range (value (g_anControllers st ! m))
        \<and> length inps = unat ADC_FILTER_SAMPLES
        \<and> (\<forall>x \<in> set (pot_samples m inps). adc_range (fst x)
              \<and> 2 ^ ADC_MASK_BITS \<le> \<bar>sint (fst x) - sint (value (g_anControllers st ! m))\<bar>)
        \<longrightarrow> (let q = g_anControllers st ! m;
                 s = fst (last (pot_samples m inps));
                 t = snd (last (pot_samples m inps));
                 v = signed_drop_bit ADC_MASK_BITS s
             in (\<forall>k < length inps. \<exists>stk. run st (map ScanPass (take k inps)) = Inr stk
                    \<and> g_anControllers stk ! m = q\<lparr>count := of_nat k\<rparr>)
              \<and> (\<exists>st1 st2. run st (map ScanPass inps) = Inr st1
                    \<and> g_anControllers st1 ! m
                        = q\<lparr>count := 0, value := s, dirty := True, time := t\<rparr>
                    \<and> onI2Crequest (onI2Creceive nBytes (of_nat (m + 1)) st1)
                        = Inr ([ucast (v AND 0xFF), ucast (signed_drop_bit 8 v)], st2)
                    \<and> (word_cat (ucast (signed_drop_bit 8 v) :: u8) (ucast (v AND 0xFF) :: u8)
                          :: 16 word) = ucast v
                    \<and> g_anControllers st2 ! m
                        = q\<lparr>count := 0, value := s, dirty := False, time := t\<rparr>))"
    using passes_sustained [of st m nBytes inps] by blast
  show "length (g_anControllers st) = MAX_CONTROLLERS \<and> m < POTS
        \<and> unat (g_nLastRead st) \<le> MAX_CONTROLLERS \<and> (\<forall>e \<in> set es. in_range_event e)
        \<and> type (g_anControllers st ! m) = CONTROLLER_TYPE_POT
        \<longrightarrow> (\<exists>st1. run st es = Inr st1
              \<and> value (g_anControllers st1 ! m)
                  = value (adc_run (event_samples m es) (g_anControllers st ! m))
              \<and> count (g_anControllers st1 ! m)
                  = count (adc_run (event_samples m es) (g_anControllers st ! m)))"
    using run_pot [of st m es] by blast
qed

theorem adc_hysteresis_witness:
  "adc_run [(101, 10), (98, 20), (103, 30)] pot100 = pot100\<lparr>count := 0\<rparr>
   \<and> adc_run (take 7 [(200, 1), (200, 2), (200, 3), (200, 4), (200, 5), (200, 6), (200, 7), (200, 8)]) pot100
       = pot100\<lparr>count := 7\<rparr>
   \<and> adc_run [(200, 1), (200, 2), (200, 3), (200, 4), (200, 5), (200, 6), (200, 7), (200, 8)] pot100
       = pot100\<lparr>count := 0, value := 200, dirty := True, time := 8\<rparr>
   \<and> fst (getValue (adc_run [(200, 1), (200, 2), (200, 3), (200, 4), (200, 5), (200, 6), (200, 7), (200, 8)] pot100))
       = 50
   \<and> (\<exists>st1 st2. run (setup_state HIGH) (map ScanPass (replicate 8 turned)) = Inr st1
          \<and> g_anControllers st1 ! 5
              = \<lparr>dirty = True, value = 200, count = 0, code = 0,
                 type = CONTROLLER_TYPE_POT, time = 1000\<rparr>
          \<and> onI2Crequest (onI2Creceive 1 6 st1) = Inr ([50, 0], st2)
          \<and> g_anControllers st2 ! 5
              = \<lparr>dirty = False, value = 200, count = 0, code = 0,
                 type = CONTROLLER_TYPE_POT, time = 1000\<rparr>)"
proof -
  have r: "adc_range (value pot100)"
    by (simp add: pot100_def adc_range_def word_sle_eq word_sless_alt)
  have a: "\<forall>x \<in> set [(101, 10), (98, 20), (103, 30 :: u32)]. adc_range (fst x)"
    by (simp add: adc_range_def word_sle_eq word_sless_alt)
  have b: "\<forall>x \<in> set [(200, 1), (200, 2), (200, 3), (200, 4), (200, 5), (200, 6), (200, 7), (200, 8 :: u32)].
             adc_range (fst x)"
    by (simp add: adc_range_def word_sle_eq word_sless_alt)
  have v: "signed_drop_bit ADC_MASK_BITS (200 :: int32) = 50"
    by (simp add: ADC_MASK_BITS_def ADC_BITS_def)
  have f: "value pot100 = 100" "count pot100 = 0" "type pot100 = CONTROLLER_TYPE_POT"
    by (simp_all add: pot100_def)
  have k: "(7 :: nat) < length [(200 :: int32, 1 :: u32), (200, 2), (200, 3), (200, 4), (200, 5), (200, 6), (200, 7), (200, 8)]"
    by simp
  from adc_hysteresis [OF r a]
  have 1: "adc_run [(101, 10), (98, 20), (103, 30)] pot100 = pot100\<lparr>count := 0\<rparr>"
    by (simp add: f mask_unit)
  from adc_hysteresis [OF r b]
  have 2: "(\<forall>k < length [(200 :: int32, 1 :: u32), (200, 2), (200, 3), (200, 4), (200, 5), (200, 6), (200, 7), (200, 8)].
              adc_run (take k [(200, 1), (200, 2), (200, 3), (200, 4), (200, 5), (200, 6), (200, 7), (200, 8)]) pot100
                = pot100\<lparr>count := of_nat k\<rparr>)
     \<and> adc_run [(200, 1), (200, 2), (200, 3), (200, 4), (200, 5), (200, 6), (200, 7), (200, 8)] pot100
       = pot100\<lparr>count := 0, value := 200, dirty := True, time := 8\<rparr>
     \<and> fst (getValue (adc_run [(200, 1), (200, 2), (200, 3), (200, 4), (200, 5), (200, 6), (200, 7), (200, 8)] pot100))
       = 50"
    by (simp add: f mask_unit filter_samples v getValue_def)
  from 2 k have 3: "adc_run (take 7 [(200, 1), (200, 2), (200, 3), (200, 4), (200, 5), (200, 6), (200, 7), (200, 8)]) pot100
       = pot100\<lparr>count := of_nat 7\<rparr>"
    by blast
  have q: "g_anControllers (setup_state HIGH) ! 5
      = \<lparr>dirty = False, value = 0, count = 0, code = 0, type = CONTROLLER_TYPE_POT, time = 0\<rparr>"
    by (simp add: setup_state_def MAX_CONTROLLERS_eq SWITCH_START_def MAX_POTS_def)
  have ps: "pot_samples 5 (replicate 8 turned) = replicate 8 (200, 1000)"
    by (simp add: pot_samples_def turned_def)
  have h: "length (g_anControllers (setup_state HIGH)) = MAX_CONTROLLERS \<and> 5 < POTS
        \<and> unat (g_nLastRead (setup_state HIGH)) \<le> MAX_CONTROLLERS \<and> \<not> (1 :: int32) <s 0
        \<and> type (g_anControllers (setup_state HIGH) ! 5) = CONTROLLER_TYPE_POT
        \<and> count (g_anControllers (setup_state HIGH) ! 5) = 0
        \<and> adc_range (value (g_anControllers (setup_state HIGH) ! 5))
        \<and> length (replicate 8 turned) = unat ADC_FILTER_SAMPLES
        \<and> (\<forall>x \<in> set (pot_samples 5 (replicate 8 turned)). adc_range (fst x)
              \<and> 2 ^ ADC_MASK_BITS
                 \<le> \<bar>sint (fst x) - sint (value (g_anControllers (setup_state HIGH) ! 5))\<bar>)"
    unfolding q ps
    by (simp add: setup_state_def POTS_def word_sless_alt word_sle_eq adc_range_def
        filter_samples mask_unit)
  have 4: "\<exists>st1 st2. run (setup_state HIGH) (map ScanPass (replicate 8 turned)) = Inr st1
          \<and> g_anControllers st1 ! 5
              = \<lparr>dirty = True, value = 200, count = 0, code = 0,
                 type = CONTROLLER_TYPE_POT, time = 1000\<rparr>
          \<and> onI2Crequest (onI2Creceive 1 6 st1) = Inr ([50, 0], st2)
          \<and> g_anControllers st2 ! 5
              = \<lparr>dirty = False, value = 200, count = 0, code = 0,
                 type = CONTROLLER_TYPE_POT, time = 1000\<rparr>"
    using adc_hysteresis [OF r a, where st = "setup_state HIGH" and m = 5 and nBytes = 1
        and inps = "replicate 8 turned"] h
    unfolding q ps Let_def
    by (simp add: v)
  from 1 2 3 4 show ?thesis by (simp add: getValue_def f v)
qed

section \<open>Claims on the switch filter\<close>

text \<open>A pass of \<^verbatim>\<open>readSwitch\<close> applies the filter to every switch.\<close>

lemma readSwitch_cells_fold:
  assumes "\<forall>k \<in> set cells. fst k * sizeof_SwitchInputPins + snd k < SWITCHES"
  shows "readSwitch_cells inp cells cs
     = fold (\<lambda>k cs. cs[SWITCH_START + (fst k * 4 + snd k) :=
                switch_sample (switchRead inp (fst k) (snd k))
                  (millis_switch_test inp (fst k * 4 + snd k))
                  (millis_switch_stamp inp (fst k * 4 + snd k))
                  (cs ! (SWITCH_START + (fst k * 4 + snd k)))])
         cells cs"
  using assms
proof (induction cells arbitrary: cs)
  case Nil
  then show ?case by simp
next
  case (Cons k cells)
  obtain nY nX where k: "k = (nY, nX)" by (cases k)
  from Cons show ?case
    by (simp add: k Let_def sizeof_SwitchInputPins_def)
qed

lemma switch_cells_distinct:
  "distinct (map (\<lambda>k. SWITCH_START + (fst k * 4 + snd k)) (List.product [0..<10] [0..<4]))"
  by code_simp

lemma readSwitch_nth:
  assumes "length cs = MAX_CONTROLLERS" and "n < SWITCHES"
  shows "readSwitch inp cs ! (SWITCH_START + n)
           = switch_sample (switchRead inp (n div 4) (n mod 4)) (millis_switch_test inp n)
               (millis_switch_stamp inp n) (cs ! (SWITCH_START + n))"
proof -
  let ?k = "(n div 4, n mod 4)"
  let ?idx = "\<lambda>k. SWITCH_START + (fst k * 4 + snd k)"
  have k: "?k \<in> set (List.product [0..<10] [0..<4])"
    using assms(2) by (simp add: SWITCHES_def)
  have i: "?idx ?k = SWITCH_START + n"
    by simp
  have a: "\<forall>k \<in> set (List.product [0..<10] [0..<4]). fst k * sizeof_SwitchInputPins + snd k < SWITCHES"
    by (auto simp: SWITCHES_def sizeof_SwitchInputPins_def)
  have b: "\<forall>k \<in> set (List.product [0..<10] [0..<4]). ?idx k < length cs"
    using assms(1) by (auto simp: MAX_CONTROLLERS_eq SWITCH_START_def MAX_POTS_def)
  have "find (\<lambda>k'. ?idx k' = ?idx ?k) (List.product [0..<10] [0..<4]) = Some ?k"
    using switch_cells_distinct k by (rule find_distinct_key)
  then have f: "find (\<lambda>k'. ?idx k' = SWITCH_START + n) (List.product [0..<10] [0..<4]) = Some ?k"
    by (simp only: i)
  then have f': "find (\<lambda>k'. fst k' * 4 + snd k' = n) (List.product [0..<10] [0..<4]) = Some ?k"
    by simp
  have "readSwitch inp cs = readSwitch_cells inp (List.product [0..<10] [0..<4]) cs"
    by (simp add: readSwitch_def sizeof_MatrixOutputPins_def sizeof_SwitchInputPins_def)
  then show ?thesis
    unfolding readSwitch_cells_fold [OF a]
    using fold_update_nth [where idx = ?idx
        and g = "\<lambda>k. switch_sample (switchRead inp (fst k) (snd k))
                  (millis_switch_test inp (fst k * 4 + snd k))
                  (millis_switch_stamp inp (fst k * 4 + snd k))",
        OF switch_cells_distinct b, of "SWITCH_START + n"]
    by (simp add: f')
qed

text \<open>While neither the clock nor the sum in the test has wrapped, a sample is accepted
  when it differs from the stored level and more than the debounce time has elapsed.\<close>

lemma switch_sample_no_wrap:
  assumes "unat (time c) + unat DEBOUNCE_TIME < 2 ^ 32" and "time c \<le> tTest"
  shows "switch_sample nValue tTest tStamp c
           = (if nValue \<noteq> value c \<and> unat DEBOUNCE_TIME < unat tTest - unat (time c)
              then c\<lparr>value := nValue, dirty := True, time := tStamp\<rparr> else c)"
proof -
  have "unat (time c + DEBOUNCE_TIME) = unat (time c) + unat DEBOUNCE_TIME"
    using assms(1) by (simp add: unat_word_ariths)
  moreover have "unat (time c) \<le> unat tTest"
    using assms(2) by (simp add: word_le_nat_alt)
  ultimately have "(time c + DEBOUNCE_TIME < tTest) = (unat DEBOUNCE_TIME < unat tTest - unat (time c))"
    by (auto simp add: word_less_nat_alt)
  then show ?thesis
    by (simp add: switch_sample_def)
qed

text \<open>
  Claim C8. A sampled level is accepted if and only if it differs from the stored
  level and the time elapsed since the last change exceeds the debounce time.
  The test of the code is \<^verbatim>\<open>millis() > time + DEBOUNCE_TIME\<close> on 32-bit unsigned
  values. With the last change stamped 10 ms before the clock wraps, the sum wraps
  to 40 and a change 5 ms after the last one is accepted; with the last change
  stamped at 1000 and the clock wrapped since, at 500, a change is discarded
  although 4294966796 ms have elapsed.
\<close>

theorem debounce_breaks_at_clock_wrap:
  "switch_sample 1 0xFFFFFFFB 0xFFFFFFFB wrap_switch
     = wrap_switch\<lparr>value := 1, dirty := True, time := 0xFFFFFFFB\<rparr>
   \<and> 0xFFFFFFFB - time wrap_switch = 5
   \<and> \<not> DEBOUNCE_TIME < 5
   \<and> switch_sample 1 500 500 late_switch = late_switch
   \<and> 500 - time late_switch = 4294966796
   \<and> DEBOUNCE_TIME < 4294966796
   \<and> readSwitch wrap_inputs wrap_registry ! SWITCH_START
       = wrap_switch\<lparr>value := 1, dirty := True, time := 0xFFFFFFFB\<rparr>"
proof -
  have l: "length wrap_registry = MAX_CONTROLLERS"
    by (simp add: wrap_registry_def setup_state_def)
  have z: "(0 :: nat) < SWITCHES"
    by (simp add: SWITCHES_def)
  have w: "wrap_registry ! SWITCH_START = wrap_switch"
    by (simp add: wrap_registry_def setup_state_def SWITCH_START_def MAX_POTS_def
        MAX_CONTROLLERS_eq)
  have s: "switch_sample 1 0xFFFFFFFB 0xFFFFFFFB wrap_switch
             = wrap_switch\<lparr>value := 1, dirty := True, time := 0xFFFFFFFB\<rparr>"
    by (simp add: switch_sample_def wrap_switch_def DEBOUNCE_TIME_def)
  have "readSwitch wrap_inputs wrap_registry ! SWITCH_START
          = wrap_switch\<lparr>value := 1, dirty := True, time := 0xFFFFFFFB\<rparr>"
    using readSwitch_nth [OF l z, of wrap_inputs]
    by (simp add: w s wrap_inputs_def)
  then show ?thesis
    by (simp add: s) (simp add: switch_sample_def wrap_switch_def late_switch_def DEBOUNCE_TIME_def)
qed

section \<open>Claims on the encoder decoder\<close>

text \<open>With \<^verbatim>\<open>nDir\<close> at 0 on entry, the body changes the value of its encoder only
  when the history of that encoder is one of the two patterns.\<close>

lemma encoder_sample_own_history:
  assumes "value (snd (encoder_sample nClk nData lNow (0, c))) \<noteq> value c"
  shows "count (snd (encoder_sample nClk nData lNow (0, c))) = 0x17
       \<or> count (snd (encoder_sample nClk nData lNow (0, c))) = 0xd4"
  using assms
  by (auto simp add: encoder_sample_def Let_def split: if_splits)

text \<open>
  Claim C3. During one pass, the value of an encoder changes only when its own
  history equals 0x17 or 0xd4. In the code \<^verbatim>\<open>nDir\<close> is set to 0 once, before the
  loops, and keeps the direction of an earlier encoder of the pass: here the
  first encoder completes a clockwise cycle, and the second encoder, at rest with
  value 0, sees its clock high; its history becomes 0x01, neither pattern, and
  its value becomes 1.
\<close>

theorem encoder_moved_by_neighbour:
  "enc_registry ! (ENCODER_START + 1)
     = \<lparr>dirty = False, value = 0, count = 0, code = 0, type = CONTROLLER_TYPE_ENCODER, time = 0\<rparr>
   \<and> readEncoder enc_inputs enc_registry ! (ENCODER_START + 1)
     = \<lparr>dirty = True, value = 1, count = 0x01, code = 0, type = CONTROLLER_TYPE_ENCODER, time = 1000\<rparr>
   \<and> readEncoder enc_inputs enc_registry ! ENCODER_START
     = \<lparr>dirty = True, value = 1, count = 0x17, code = 0, type = CONTROLLER_TYPE_ENCODER, time = 1000\<rparr>"
  by code_simp

end
